theory Spec2Isabelle
  imports Complex_Main
begin

chapter \<open>redaxios: configuration merging, request pipeline and progress instrumentation\<close>

section \<open>JavaScript values\<close>

text \<open>
  Configuration trees are JavaScript values. The model keeps the kinds of value that
  \<^verbatim>\<open>deepMerge\<close> tells apart: the primitives, arrays, objects and functions.

  \<open>JObj ps\<close> is an object whose prototype is \<^verbatim>\<open>Object.prototype\<close>, as an object
  literal and \<^verbatim>\<open>JSON.parse\<close> make them; \<open>ps\<close> is the list of its own enumerable
  properties in \<^verbatim>\<open>for-in\<close> order, with no name twice. \<^verbatim>\<open>JSON.parse\<close> makes an own
  property of the name \<^verbatim>\<open>__proto__\<close> like of any other name. \<open>JProto ps p\<close> is an
  object with the own properties \<open>ps\<close> whose prototype is \<open>p\<close>, which is \<^verbatim>\<open>null\<close> or
  an object; in this code only an assignment to \<^verbatim>\<open>__proto__\<close> makes one.
  \<open>JObjectPrototype\<close> is the object \<^verbatim>\<open>Object.prototype\<close> itself. A function is
  opaque and carries only a name. Numbers are integers (no configuration value the
  claims speak about is fractional); strings are byte strings, of which only the ASCII
  letters have another case.

  JavaScript enumerates the names that are array indices before the others, wherever
  they were added; the lists here keep the order of insertion. An index has no letter,
  so folding the case of names never makes it meet another name, and no property read
  depends on where it stands.
\<close>

datatype jsval =
    JUndefined
  | JNull
  | JBool bool
  | JNum int
  | JStr string
  | JArr "jsval list"
  | JObj "(string \<times> jsval) list"
  | JFn string
  | JProto "(string \<times> jsval) list" jsval
  | JObjectPrototype

type_synonym props = "(string \<times> jsval) list"

text \<open>\<^verbatim>\<open>typeof value == 'object'\<close>: true of objects and arrays, and of \<^verbatim>\<open>null\<close>.\<close>

fun typeof_object :: "jsval \<Rightarrow> bool" where
  "typeof_object JNull = True"
| "typeof_object (JArr xs) = True"
| "typeof_object (JObj ps) = True"
| "typeof_object (JProto ps p) = True"
| "typeof_object JObjectPrototype = True"
| "typeof_object v = False"

text \<open>The values that are objects to the language: all but the primitives.\<close>

fun is_object :: "jsval \<Rightarrow> bool" where
  "is_object (JArr xs) = True"
| "is_object (JObj ps) = True"
| "is_object (JFn n) = True"
| "is_object (JProto ps p) = True"
| "is_object JObjectPrototype = True"
| "is_object v = False"

text \<open>Truthiness, as \<^verbatim>\<open>||\<close>, \<^verbatim>\<open>&&\<close> and \<^verbatim>\<open>if\<close> read a value.\<close>

fun truthy :: "jsval \<Rightarrow> bool" where
  "truthy JUndefined = False"
| "truthy JNull = False"
| "truthy (JBool b) = b"
| "truthy (JNum n) = (n \<noteq> 0)"
| "truthy (JStr s) = (s \<noteq> [])"
| "truthy v = True"

definition js_or :: "jsval \<Rightarrow> jsval \<Rightarrow> jsval" where
  "js_or a b = (if truthy a then a else b)"

subsection \<open>Strings\<close>

definition lower_char :: "char \<Rightarrow> char" where
  "lower_char c =
     (case map_of (zip ''ABCDEFGHIJKLMNOPQRSTUVWXYZ'' ''abcdefghijklmnopqrstuvwxyz'') c of
        Some d \<Rightarrow> d
      | None \<Rightarrow> c)"

definition toLowerCase :: "string \<Rightarrow> string" where
  "toLowerCase s = map lower_char s"

definition upper_char :: "char \<Rightarrow> char" where
  "upper_char c =
     (case map_of (zip ''abcdefghijklmnopqrstuvwxyz'' ''ABCDEFGHIJKLMNOPQRSTUVWXYZ'') c of
        Some d \<Rightarrow> d
      | None \<Rightarrow> c)"

definition toUpperCase :: "string \<Rightarrow> string" where
  "toUpperCase s = map upper_char s"

text \<open>The decimal numeral of a natural number, as template strings and index keys print it.\<close>

definition digit_char :: "nat \<Rightarrow> char" where
  "digit_char d = ''0123456789'' ! (d mod 10)"

function string_of_nat :: "nat \<Rightarrow> string" where
  "string_of_nat n =
     (if n < 10 then [digit_char n] else string_of_nat (n div 10) @ [digit_char (n mod 10)])"
  by pat_completeness auto
termination
  by (relation "measure id") auto

declare string_of_nat.simps [simp del]

subsection \<open>Enumeration\<close>

text \<open>
  The keys a \<^verbatim>\<open>for-in\<close> loop visits, with the values read at them: the own properties
  of an object, then the properties its prototype gives it under names not met before;
  the indices of an array; the indices of a string (each holding one character);
  nothing for the other primitives, for \<^verbatim>\<open>null\<close>, \<^verbatim>\<open>undefined\<close>, functions and
  \<^verbatim>\<open>Object.prototype\<close>.
\<close>

definition index_keys :: "nat \<Rightarrow> string list" where
  "index_keys n = map string_of_nat [0..<n]"

fun for_in :: "jsval \<Rightarrow> props" where
  "for_in (JObj ps) = ps"
| "for_in (JProto ps p) = ps @ filter (\<lambda>q. fst q \<notin> fst ` set ps) (for_in p)"
| "for_in (JArr xs) = zip (index_keys (length xs)) xs"
| "for_in (JStr s) = zip (index_keys (length s)) (map (\<lambda>c. JStr [c]) s)"
| "for_in v = []"

subsection \<open>Own properties\<close>

definition has_own :: "string \<Rightarrow> props \<Rightarrow> bool" where
  "has_own key out = (key \<in> fst ` set out)"

text \<open>
  The list of own properties with a value put under a name: an existing property keeps
  its place, a new one is added last.
\<close>

fun update_own :: "props \<Rightarrow> string \<Rightarrow> jsval \<Rightarrow> props" where
  "update_own [] key v = [(key, v)]"
| "update_own ((k, w) # out) key v =
     (if k = key then (key, v) # out else (k, w) # update_own out key v)"

subsection \<open>Inherited members\<close>

text \<open>
  What an object finds under a name on its prototype chain: nothing; a data property
  that may be written, so that an assignment through the heir gives the heir a property
  of its own; a data property that may not be written, or an accessor whose functions
  throw, where the assignment throws a \<^verbatim>\<open>TypeError\<close> (\<^verbatim>\<open>index.js\<close> is a module, hence
  strict code); or the accessor \<^verbatim>\<open>__proto__\<close> of \<^verbatim>\<open>Object.prototype\<close>, which reads
  and replaces the prototype of the object it is called on.

  The members of \<^verbatim>\<open>Object.prototype\<close> are those of the language standard. What an
  array inherits from \<^verbatim>\<open>Array.prototype\<close>, and the members of a function (its own
  \<^verbatim>\<open>name\<close> and \<^verbatim>\<open>length\<close>, and what it inherits from \<^verbatim>\<open>Function.prototype\<close>),
  depend on the engine and on the function: they are parameters.
\<close>

datatype member =
    No_member
  | Data_member jsval
  | Readonly_member jsval
  | Proto_accessor
  | Throwing_accessor

record engine =
  array_prototype_member :: "string \<Rightarrow> member"
  function_member :: "string \<Rightarrow> string \<Rightarrow> member"

definition object_prototype_names :: "string list" where
  "object_prototype_names =
     [''constructor'', ''hasOwnProperty'', ''isPrototypeOf'', ''propertyIsEnumerable'',
      ''toLocaleString'', ''toString'', ''valueOf'',
      ''__defineGetter__'', ''__defineSetter__'', ''__lookupGetter__'', ''__lookupSetter__'']"

definition object_prototype_member :: "string \<Rightarrow> member" where
  "object_prototype_member key =
     (if key = ''__proto__'' then Proto_accessor
      else if key \<in> set object_prototype_names then Data_member (JFn key)
      else No_member)"

text \<open>
  The member found under a name, the search starting at the given object: its own
  properties first, then its prototype. An array has its elements, its \<^verbatim>\<open>length\<close>,
  and what \<^verbatim>\<open>Array.prototype\<close> and \<^verbatim>\<open>Object.prototype\<close> give it.
\<close>

fun member_of :: "engine \<Rightarrow> jsval \<Rightarrow> string \<Rightarrow> member" where
  "member_of eng (JObj ps) key =
     (case map_of ps key of
        Some v \<Rightarrow> Data_member v
      | None \<Rightarrow> object_prototype_member key)"
| "member_of eng (JProto ps p) key =
     (case map_of ps key of
        Some v \<Rightarrow> Data_member v
      | None \<Rightarrow> member_of eng p key)"
| "member_of eng JObjectPrototype key = object_prototype_member key"
| "member_of eng (JArr xs) key =
     (case map_of (zip (index_keys (length xs)) xs) key of
        Some v \<Rightarrow> Data_member v
      | None \<Rightarrow>
          if key = ''length'' then Data_member (JNum (int (length xs)))
          else (case array_prototype_member eng key of
                  No_member \<Rightarrow> object_prototype_member key
                | m \<Rightarrow> m))"
| "member_of eng (JFn n) key =
     (case function_member eng n key of
        No_member \<Rightarrow> object_prototype_member key
      | m \<Rightarrow> m)"
| "member_of eng v key = No_member"

subsection \<open>The object under construction\<close>

text \<open>
  The accumulator \<^verbatim>\<open>out\<close> of \<^verbatim>\<open>deepMerge\<close> and the header object of a request
  start as \<^verbatim>\<open>{}\<close>: no own property, and the prototype \<^verbatim>\<open>Object.prototype\<close>. The
  state of such an object is its own properties and its prototype.
\<close>

type_synonym object = "props \<times> jsval"

definition empty_object :: object where
  "empty_object = ([], JObjectPrototype)"

text \<open>\<^verbatim>\<open>key in out\<close>: an own property, or a member found on the prototype chain.\<close>

definition in_op :: "engine \<Rightarrow> string \<Rightarrow> object \<Rightarrow> bool" where
  "in_op eng key out =
     (key \<in> fst ` set (fst out) \<or> member_of eng (snd out) key \<noteq> No_member)"

text \<open>
  The read \<^verbatim>\<open>out[key]\<close>: the own property, else the inherited member, else
  \<^verbatim>\<open>undefined\<close>. Read through the accessor, \<^verbatim>\<open>__proto__\<close> is the prototype of
  \<^verbatim>\<open>out\<close>. The result is \<open>None\<close> when the read throws.
\<close>

definition get_member :: "engine \<Rightarrow> object \<Rightarrow> string \<Rightarrow> jsval option" where
  "get_member eng out key =
     (case map_of (fst out) key of
        Some v \<Rightarrow> Some v
      | None \<Rightarrow>
          (case member_of eng (snd out) key of
             No_member \<Rightarrow> Some JUndefined
           | Data_member v \<Rightarrow> Some v
           | Readonly_member v \<Rightarrow> Some v
           | Proto_accessor \<Rightarrow> Some (snd out)
           | Throwing_accessor \<Rightarrow> None))"

text \<open>
  The assignment \<^verbatim>\<open>out[key] = v\<close>. An own property is overwritten. Otherwise the
  prototype chain decides: where it has nothing under the name, or a data property that
  may be written, \<^verbatim>\<open>out\<close> gets a new own property; where it has the accessor
  \<^verbatim>\<open>__proto__\<close>, the setter runs, which makes \<open>v\<close> the prototype of \<^verbatim>\<open>out\<close> when
  \<open>v\<close> is an object or \<^verbatim>\<open>null\<close> and does nothing when \<open>v\<close> is another primitive,
  and \<^verbatim>\<open>out\<close> gets no own property; where it has a read-only property or a throwing
  accessor, the assignment throws (\<open>None\<close>).
\<close>

definition set_prop :: "engine \<Rightarrow> object \<Rightarrow> string \<Rightarrow> jsval \<Rightarrow> object option" where
  "set_prop eng out key v =
     (if key \<in> fst ` set (fst out) then Some (update_own (fst out) key v, snd out)
      else
        (case member_of eng (snd out) key of
           No_member \<Rightarrow> Some (update_own (fst out) key v, snd out)
         | Data_member w \<Rightarrow> Some (update_own (fst out) key v, snd out)
         | Readonly_member w \<Rightarrow> None
         | Throwing_accessor \<Rightarrow> None
         | Proto_accessor \<Rightarrow> Some (fst out, if is_object v \<or> v = JNull then v else snd out)))"

text \<open>The object as a value.\<close>

definition object_value :: "object \<Rightarrow> jsval" where
  "object_value out = (if snd out = JObjectPrototype then JObj (fst out) else JProto (fst out) (snd out))"

subsection \<open>Reading a property of a value\<close>

text \<open>
  The read \<^verbatim>\<open>out[key]\<close> on an object whose prototype is \<^verbatim>\<open>Object.prototype\<close>: its
  own property, else the member of \<^verbatim>\<open>Object.prototype\<close>, a built-in function or,
  under \<^verbatim>\<open>__proto__\<close>, the prototype.
\<close>

definition get_own :: "props \<Rightarrow> string \<Rightarrow> jsval" where
  "get_own out key =
     (case map_of out key of
        Some v \<Rightarrow> v
      | None \<Rightarrow>
          if key = ''__proto__'' then JObjectPrototype
          else if key \<in> set object_prototype_names then JFn key
          else JUndefined)"

text \<open>Whether the accessor \<^verbatim>\<open>__proto__\<close> of \<^verbatim>\<open>Object.prototype\<close> is what a read of
  \<^verbatim>\<open>__proto__\<close> finds, the search starting at the given object.\<close>

fun reaches_accessor :: "jsval \<Rightarrow> bool" where
  "reaches_accessor (JObj ps) = (''__proto__'' \<notin> fst ` set ps)"
| "reaches_accessor (JProto ps p) = (''__proto__'' \<notin> fst ` set ps \<and> reaches_accessor p)"
| "reaches_accessor (JArr xs) = True"
| "reaches_accessor (JFn n) = True"
| "reaches_accessor JObjectPrototype = True"
| "reaches_accessor v = False"

text \<open>
  The property read \<^verbatim>\<open>value.key\<close> on a value that is not \<^verbatim>\<open>null\<close> or
  \<^verbatim>\<open>undefined\<close> (there the code guards the read, or the read throws and the caller
  of \<open>get_prop\<close> says so). An object yields its property, own or inherited. Of the
  names the code reads, a function has only \<^verbatim>\<open>name\<close>, and arrays, strings, numbers
  and booleans have none.
\<close>

fun get_prop :: "jsval \<Rightarrow> string \<Rightarrow> jsval" where
  "get_prop (JObj ps) key = get_own ps key"
| "get_prop (JProto ps p) key =
     (case map_of ps key of
        Some v \<Rightarrow> v
      | None \<Rightarrow> if key = ''__proto__'' \<and> reaches_accessor p then p else get_prop p key)"
| "get_prop JObjectPrototype key = (if key = ''__proto__'' then JNull else get_own [] key)"
| "get_prop (JFn n) key = (if key = ''name'' then JStr n else JUndefined)"
| "get_prop v key = JUndefined"

definition js_and :: "jsval \<Rightarrow> jsval \<Rightarrow> jsval" where
  "js_and a b = (if truthy a then b else a)"

text \<open>\<^verbatim>\<open>v === 'literal'\<close>, the only strict comparisons the code makes.\<close>

definition strict_eq_str :: "jsval \<Rightarrow> string \<Rightarrow> jsval" where
  "strict_eq_str v s = JBool (v = JStr s)"

fun is_function :: "jsval \<Rightarrow> bool" where
  "is_function (JFn n) = True"
| "is_function v = False"

fun is_nullish :: "jsval \<Rightarrow> bool" where
  "is_nullish JUndefined = True"
| "is_nullish JNull = True"
| "is_nullish v = False"

section \<open>Config Merger\<close>

text \<open>
  \<^verbatim>\<open>deepMerge(opts, overrides, lowerCase)\<close> of \<^verbatim>\<open>src/index.js\<close>. An array
  \<^verbatim>\<open>opts\<close> returns \<^verbatim>\<open>opts.concat(overrides)\<close>, which appends the elements of an
  array argument and any other argument as one element. Otherwise the first loop copies
  the properties of \<^verbatim>\<open>opts\<close> and the second one merges those of \<^verbatim>\<open>overrides\<close>.
  The result is \<open>None\<close> when an assignment or a read throws.
\<close>

definition fold_key :: "bool \<Rightarrow> string \<Rightarrow> string" where
  "fold_key lowerCase i = (if lowerCase then toLowerCase i else i)"

definition copy_step :: "engine \<Rightarrow> bool \<Rightarrow> object option \<Rightarrow> string \<times> jsval \<Rightarrow> object option" where
  "copy_step eng lowerCase out p =
     (case out of
        None \<Rightarrow> None
      | Some obj \<Rightarrow> set_prop eng obj (fold_key lowerCase (fst p)) (snd p))"

fun concat_js :: "jsval list \<Rightarrow> jsval \<Rightarrow> jsval" where
  "concat_js xs (JArr ys) = JArr (xs @ ys)"
| "concat_js xs v = JArr (xs @ [v])"

function deepMerge :: "engine \<Rightarrow> jsval \<Rightarrow> jsval \<Rightarrow> bool \<Rightarrow> jsval option" where
  "deepMerge eng opts overrides lowerCase =
     (case opts of
        JArr xs \<Rightarrow> Some (concat_js xs overrides)
      | _ \<Rightarrow>
          map_option object_value
            (foldl
              (\<lambda>out p.
                 case out of
                   None \<Rightarrow> None
                 | Some obj \<Rightarrow>
                     let key = fold_key lowerCase (fst p);
                         value = snd p
                     in if in_op eng key obj \<and> typeof_object value
                        then (case get_member eng obj key of
                                None \<Rightarrow> None
                              | Some existing \<Rightarrow>
                                  (case deepMerge eng existing value (key = ''headers'') of
                                     None \<Rightarrow> None
                                   | Some merged \<Rightarrow> set_prop eng obj key merged))
                        else set_prop eng obj key value)
              (foldl (copy_step eng lowerCase) (Some empty_object) (for_in opts))
              (for_in overrides)))"
  by pat_completeness auto
termination
proof -
  have inner: "size v \<le> size_list (size_prod (\<lambda>x. 0) size) ps" if "(i, v) \<in> set ps"
    for i :: string and v :: jsval and ps
    using that by (induction ps) auto
  have smaller: "size v < size ov" if "(i, v) \<in> set (for_in ov)" and "typeof_object v"
    for i :: string and v ov :: jsval
    using that
  proof (induction ov rule: for_in.induct)
    case (1 ps)
    with inner [of i v ps] show ?case by simp
  next
    case (2 ps p)
    from "2.prems"(1) have "(i, v) \<in> set ps \<or> (i, v) \<in> set (for_in p)" by auto
    then show ?case
    proof
      assume "(i, v) \<in> set ps"
      with inner [of i v ps] show ?thesis by simp
    next
      assume "(i, v) \<in> set (for_in p)"
      from "2.IH" [OF this "2.prems"(2)] show ?thesis by simp
    qed
  next
    case (3 xs)
    then have "v \<in> set xs" by (auto dest: set_zip_rightD)
    then have "size v \<le> size_list size xs" by (induction xs) auto
    then show ?case by simp
  next
    case (4 s)
    then show ?case by (auto dest!: set_zip_rightD)
  qed simp_all
  show ?thesis
    by (relation "measure (\<lambda>(eng, opts, overrides, lowerCase). size overrides)")
      (auto intro: smaller)
qed

declare deepMerge.simps [simp del]

text \<open>One turn of the second loop, on the accumulator \<^verbatim>\<open>out\<close>.\<close>

definition merge_step :: "engine \<Rightarrow> bool \<Rightarrow> object option \<Rightarrow> string \<times> jsval \<Rightarrow> object option" where
  "merge_step eng lowerCase out p =
     (case out of
        None \<Rightarrow> None
      | Some obj \<Rightarrow>
          let key = fold_key lowerCase (fst p);
              value = snd p
          in if in_op eng key obj \<and> typeof_object value
             then (case get_member eng obj key of
                     None \<Rightarrow> None
                   | Some existing \<Rightarrow>
                       (case deepMerge eng existing value (key = ''headers'') of
                          None \<Rightarrow> None
                        | Some merged \<Rightarrow> set_prop eng obj key merged))
             else set_prop eng obj key value)"

text \<open>\<^verbatim>\<open>mergeConfig(config1, config2)\<close>: a falsy argument stands for the empty object.\<close>

definition mergeConfig :: "engine \<Rightarrow> jsval \<Rightarrow> jsval \<Rightarrow> jsval option" where
  "mergeConfig eng config1 config2 =
     deepMerge eng (js_or config1 (JObj [])) (js_or config2 (JObj [])) False"

subsection \<open>The loops on an object that keeps its prototype\<close>

text \<open>
  As long as no assignment is made under the name \<^verbatim>\<open>__proto__\<close>, the prototype of
  \<^verbatim>\<open>out\<close> stays \<^verbatim>\<open>Object.prototype\<close>, no assignment throws, and the loops act on
  the own properties alone: \<open>in_plain\<close> is \<^verbatim>\<open>key in out\<close> there, \<open>copy_own\<close> a turn
  of the first loop and \<open>merge_own\<close> a turn of the second, which still fails when the
  merge it calls does.
\<close>

definition in_plain :: "string \<Rightarrow> props \<Rightarrow> bool" where
  "in_plain key out =
     (key \<in> fst ` set out \<or> key = ''__proto__'' \<or> key \<in> set object_prototype_names)"

definition copy_own :: "bool \<Rightarrow> props \<Rightarrow> string \<times> jsval \<Rightarrow> props" where
  "copy_own lowerCase out p = update_own out (fold_key lowerCase (fst p)) (snd p)"

definition merge_own :: "engine \<Rightarrow> bool \<Rightarrow> props option \<Rightarrow> string \<times> jsval \<Rightarrow> props option" where
  "merge_own eng lowerCase out p =
     (case out of
        None \<Rightarrow> None
      | Some own \<Rightarrow>
          let key = fold_key lowerCase (fst p);
              value = snd p
          in if in_plain key own \<and> typeof_object value
             then map_option (update_own own key)
                    (deepMerge eng (get_own own key) value (key = ''headers''))
             else Some (update_own own key value))"

subsection \<open>Values without the name \<^verbatim>\<open>__proto__\<close>\<close>

text \<open>
  A value in which no object, at any depth, has a property whose name is
  \<^verbatim>\<open>__proto__\<close> in whatever letter case, and in which every object has the
  prototype \<^verbatim>\<open>Object.prototype\<close>.
\<close>

function proto_free :: "jsval \<Rightarrow> bool" where
  "proto_free (JObj ps) = (\<forall>p \<in> set ps. toLowerCase (fst p) \<noteq> ''__proto__'' \<and> proto_free (snd p))"
| "proto_free (JArr xs) = (\<forall>v \<in> set xs. proto_free v)"
| "proto_free (JProto ps p) = False"
| "proto_free JUndefined = True"
| "proto_free JNull = True"
| "proto_free (JBool b) = True"
| "proto_free (JNum n) = True"
| "proto_free (JStr s) = True"
| "proto_free (JFn f) = True"
| "proto_free JObjectPrototype = True"
  by pat_completeness auto
termination
proof -
  have inner: "size (snd p) \<le> size_list (size_prod (\<lambda>x. 0) size) ps" if "p \<in> set ps"
    for p :: "string \<times> jsval" and ps
    using that by (induction ps) auto
  have elem: "size v \<le> size_list size xs" if "v \<in> set xs" for v :: jsval and xs
    using that by (induction xs) auto
  show ?thesis
    by (relation "measure size") (auto simp: less_Suc_eq_le inner elem)
qed

section \<open>Request Orchestrator\<close>

text \<open>
  What the orchestrator takes from its surroundings: the engine, the behaviour of the function values
  found in a configuration (called by name; they are taken to return), \<^verbatim>\<open>JSON.parse\<close>
  (\<open>None\<close> when it throws) and \<^verbatim>\<open>JSON.stringify\<close>, whether \<^verbatim>\<open>Request\<close> and
  \<^verbatim>\<open>ReadableStream\<close> exist, the header added by the XSRF cookie step if any, the
  URL after the base URL and query-string steps, and whether the guarded block that
  builds the instrumented \<^verbatim>\<open>Request\<close> from the URL and the options completes
  (\<open>False\<close> when it throws, and the plain call is made instead).
\<close>

record fetch_options =
  fo_method :: string
  fo_body :: jsval
  fo_headers :: jsval
  fo_credentials :: jsval
  fo_signal :: jsval

record request =
  rq_url :: string
  rq_init :: fetch_options

record platform =
  js_engine :: engine
  call_fn :: "string \<Rightarrow> jsval list \<Rightarrow> jsval"
  json_parse :: "string \<Rightarrow> jsval option"
  json_stringify :: "jsval \<Rightarrow> jsval"
  has_Request :: bool
  has_ReadableStream :: bool
  xsrf_header :: "(string \<times> jsval) option"
  resolve_url :: "jsval \<Rightarrow> jsval \<Rightarrow> string"
  upload_request :: "string \<Rightarrow> fetch_options \<Rightarrow> bool"

text \<open>The value thrown where the engine raises a \<^verbatim>\<open>TypeError\<close>; its message is the engine's.\<close>

definition type_error :: jsval where
  "type_error = JObj [(''name'', JStr ''TypeError'')]"

datatype transport_call =
    Fetch_url string fetch_options
  | Fetch_request request

text \<open>
  \<^verbatim>\<open>(options.transformRequest || []).map(f => { data = f(data, options.headers) || data })\<close>
\<close>

fun transform_data :: "platform \<Rightarrow> jsval \<Rightarrow> jsval list \<Rightarrow> jsval \<Rightarrow> jsval + jsval" where
  "transform_data env headers [] data = Inr data"
| "transform_data env headers (JFn f # fs) data =
     transform_data env headers fs (js_or (call_fn env f [data, headers]) data)"
| "transform_data env headers (v # fs) data = Inl type_error"

definition transformRequest :: "platform \<Rightarrow> jsval \<Rightarrow> jsval \<Rightarrow> jsval + jsval" where
  "transformRequest env options data =
     (case js_or (get_prop options ''transformRequest'') (JArr []) of
        JArr fs \<Rightarrow> transform_data env (get_prop options ''headers'') fs data
      | _ \<Rightarrow> Inl type_error)"

text \<open>
  The plain-object test of the body:
  \<^verbatim>\<open>data && typeof data === 'object' && typeof data.append !== 'function' && typeof data.text !== 'function'\<close>
\<close>

definition json_body :: "jsval \<Rightarrow> bool" where
  "json_body data =
     (truthy data \<and> typeof_object data
      \<and> \<not> is_function (get_prop data ''append'') \<and> \<not> is_function (get_prop data ''text''))"

text \<open>
  The body and the headers the orchestrator adds: \<^verbatim>\<open>data || options.data\<close>, passed
  through the transforms, encoded as JSON when it is a plain object; the
  \<^verbatim>\<open>authorization\<close>, \<^verbatim>\<open>content-type\<close> and XSRF headers, set on
  \<^verbatim>\<open>customHeaders = {}\<close>. The XSRF header is assigned under a name taken from the
  configuration, inside a \<^verbatim>\<open>try\<close> whose \<^verbatim>\<open>catch\<close> is empty.
\<close>

definition request_data :: "platform \<Rightarrow> jsval \<Rightarrow> jsval \<Rightarrow> jsval + (jsval \<times> jsval)" where
  "request_data env options data0 =
     (case transformRequest env options (js_or data0 (get_prop options ''data'')) of
        Inl e \<Rightarrow> Inl e
      | Inr data2 \<Rightarrow>
          let auth = get_prop options ''auth'';
              h1 = (if truthy auth then [(''authorization'', auth)] else []);
              data = (if json_body data2 then json_stringify env data2 else data2);
              h2 = (if json_body data2
                    then update_own h1 ''content-type'' (JStr ''application/json'') else h1);
              customHeaders =
                (case xsrf_header env of
                   Some (n, v) \<Rightarrow>
                     (case set_prop (js_engine env) (h2, JObjectPrototype) n v of
                        Some headers \<Rightarrow> headers
                      | None \<Rightarrow> (h2, JObjectPrototype))
                 | None \<Rightarrow> (h2, JObjectPrototype))
          in Inr (data, object_value customHeaders))"

text \<open>\<^verbatim>\<open>(_method || options.method || 'get').toUpperCase()\<close>, which throws on a value
  that is no string.\<close>

definition effective_method :: "jsval \<Rightarrow> jsval \<Rightarrow> jsval + string" where
  "effective_method method0 options =
     (case js_or method0 (js_or (get_prop options ''method'') (JStr ''get'')) of
        JStr m \<Rightarrow> Inr (toUpperCase m)
      | _ \<Rightarrow> Inl type_error)"

text \<open>
  The dispatch of \<^verbatim>\<open>redaxios(urlOrConfig, config, _method, data)\<close>, from its first
  line to the call of the transport (\<open>method0\<close> and \<open>data0\<close> are the internal arguments
  \<^verbatim>\<open>_method\<close> and \<^verbatim>\<open>data\<close>). The result is the value thrown before the transport
  is reached (\<open>Inl\<close>), or the arguments the transport is called with, the effective
  configuration and the configuration of the call. The transport is called with the
  instrumented request alone when one was built, else with the URL and the options.
\<close>

definition redaxios_dispatch ::
  "platform \<Rightarrow> jsval \<Rightarrow> jsval \<Rightarrow> jsval \<Rightarrow> jsval \<Rightarrow> jsval \<Rightarrow> jsval + (transport_call \<times> jsval \<times> jsval)" where
  "redaxios_dispatch env defaults urlOrConfig config0 method0 data0 =
     (let config = (case urlOrConfig of JStr u \<Rightarrow> config0 | _ \<Rightarrow> urlOrConfig);
          url0 = (case urlOrConfig of JStr u \<Rightarrow> urlOrConfig | _ \<Rightarrow> get_prop urlOrConfig ''url'')
      in if is_nullish urlOrConfig then Inl type_error
      else
       case deepMerge (js_engine env) (js_or defaults (JObj [])) config False of
         None \<Rightarrow> Inl type_error
       | Some options \<Rightarrow>
          (case request_data env options data0 of
            Inl e \<Rightarrow> Inl e
          | Inr (data, customHeaders) \<Rightarrow>
             let url = resolve_url env options url0
             in case effective_method method0 options of
                  Inl e \<Rightarrow> Inl e
                | Inr method \<Rightarrow>
                   (case deepMerge (js_engine env) (get_prop options ''headers'') customHeaders True of
                      None \<Rightarrow> Inl type_error
                    | Some headers \<Rightarrow>
                    let hasBody = (truthy data \<and> method \<noteq> ''GET'' \<and> method \<noteq> ''HEAD'');
                        baseFetchOptions =
                          \<lparr> fo_method = method,
                            fo_body = data,
                            fo_headers = headers,
                            fo_credentials =
                              (if truthy (get_prop options ''withCredentials'')
                               then JStr ''include'' else JUndefined),
                            fo_signal = get_prop options ''signal'' \<rparr>;
                        request =
                          (if hasBody \<and> truthy (get_prop options ''onUploadProgress'')
                              \<and> has_Request env \<and> has_ReadableStream env
                              \<and> upload_request env url baseFetchOptions
                           then Some \<lparr> rq_url = url, rq_init = baseFetchOptions \<rparr>
                           else None)
                    in Inr ((case request of
                               Some r \<Rightarrow> Fetch_request r
                             | None \<Rightarrow> Fetch_url url baseFetchOptions),
                            options, config))))"

fun call_init :: "transport_call \<Rightarrow> fetch_options" where
  "call_init (Fetch_url url init) = init"
| "call_init (Fetch_request r) = rq_init r"

text \<open>
  The transport's promise, and the response it fulfils with. The response carries the
  data properties the orchestrator copies, and its decode methods by name: \<open>None\<close> where
  the response has no such method, else the settlement of the promise the method returns.
  \<open>res\<close> is the response as the copying loop sees it, that is after the optional
  wrapping for download progress, which is modelled with the stream instrumentation.
\<close>

datatype 'a settled = Fulfilled 'a | Rejected jsval

record raw_response =
  res_status :: nat
  res_ok :: bool
  res_statusText :: string
  res_url :: string
  res_headers :: jsval
  res_body :: jsval
  res_decode :: "string \<Rightarrow> jsval settled option"

text \<open>\<^verbatim>\<open>for (const i in res) if (typeof res[i] != 'function') response[i] = res[i]\<close>,
  on \<^verbatim>\<open>response = { config }\<close>; then the header view, which reads the same headers.\<close>

definition copy_response :: "jsval \<Rightarrow> raw_response \<Rightarrow> props" where
  "copy_response config res =
     foldl (\<lambda>response p. if is_function (snd p) then response else update_own response (fst p) (snd p))
       [(''config'', config)]
       [(''status'', JNum (int (res_status res))),
        (''ok'', JBool (res_ok res)),
        (''statusText'', JStr (res_statusText res)),
        (''url'', JStr (res_url res)),
        (''headers'', res_headers res),
        (''body'', res_body res)]"

text \<open>
  The decoded value becomes \<^verbatim>\<open>response.data\<close>; a string is parsed as JSON unless the
  configured \<^verbatim>\<open>responseType\<close> is exactly \<^verbatim>\<open>'text'\<close>, and stays as it is when the
  parse throws.
\<close>

definition response_data :: "platform \<Rightarrow> jsval \<Rightarrow> jsval \<Rightarrow> jsval" where
  "response_data env options data =
     (case data of
        JStr s \<Rightarrow>
          if get_prop options ''responseType'' \<noteq> JStr ''text''
          then (case json_parse env s of Some v \<Rightarrow> v | None \<Rightarrow> data)
          else data
      | _ \<Rightarrow> data)"

definition http_error :: "raw_response \<Rightarrow> jsval \<Rightarrow> jsval \<Rightarrow> jsval" where
  "http_error res response options =
     JObj [(''name'', JStr ''Error''),
           (''message'', JStr (''Request failed with status code '' @ string_of_nat (res_status res))),
           (''response'', response),
           (''config'', options),
           (''isAxiosError'', JBool True)]"

text \<open>The handler given to \<^verbatim>\<open>.then\<close> on the transport's promise.\<close>

definition redaxios_then :: "platform \<Rightarrow> jsval \<Rightarrow> jsval \<Rightarrow> raw_response \<Rightarrow> jsval settled" where
  "redaxios_then env options config res =
     (let response = copy_response config res
      in if get_prop options ''responseType'' = JStr ''stream''
         then Fulfilled (JObj (update_own response ''data'' (res_body res)))
         else
           case js_or (get_prop options ''responseType'') (JStr ''text'') of
             JStr name \<Rightarrow>
               (case res_decode res name of
                  None \<Rightarrow> Rejected type_error
                | Some decoded \<Rightarrow>
                    let response = JObj
                          (case decoded of
                             Fulfilled data \<Rightarrow> update_own response ''data'' (response_data env options data)
                           | Rejected e \<Rightarrow> response);
                        validateStatus = get_prop options ''validateStatus''
                    in if truthy validateStatus \<and> \<not> is_function validateStatus then Rejected type_error
                       else
                         let ok = (case validateStatus of
                                     JFn f \<Rightarrow> truthy (call_fn env f [JNum (int (res_status res))])
                                   | _ \<Rightarrow> res_ok res)
                         in if ok then Fulfilled response
                            else Rejected (http_error res response options))
           | _ \<Rightarrow> Rejected type_error)"

text \<open>
  The handler given to \<^verbatim>\<open>.catch\<close>. After the abort test both remaining branches reject
  with the error as it came; reading \<^verbatim>\<open>error.response\<close> of \<^verbatim>\<open>null\<close> or
  \<^verbatim>\<open>undefined\<close> throws.
\<close>

definition cancelError :: jsval where
  "cancelError = JObj [(''name'', JStr ''AbortError''), (''message'', JStr ''canceled'')]"

definition is_abort :: "jsval \<Rightarrow> jsval" where
  "is_abort error =
     js_or (js_and error (strict_eq_str (get_prop error ''name'') ''AbortError''))
           (js_and error (strict_eq_str (get_prop error ''code'') ''ERR_CANCELED''))"

definition redaxios_catch :: "jsval \<Rightarrow> jsval settled" where
  "redaxios_catch error =
     (if truthy (is_abort error) then Rejected cancelError
      else if is_nullish error then Rejected type_error
      else Rejected error)"

text \<open>The promise \<^verbatim>\<open>redaxios\<close> returns, from the settlement of the transport's promise.\<close>

definition redaxios_settle ::
  "platform \<Rightarrow> jsval \<Rightarrow> jsval \<Rightarrow> raw_response settled \<Rightarrow> jsval settled" where
  "redaxios_settle env options config transport =
     (case (case transport of
              Fulfilled res \<Rightarrow> redaxios_then env options config res
            | Rejected error \<Rightarrow> Rejected error) of
        Fulfilled response \<Rightarrow> Fulfilled response
      | Rejected error \<Rightarrow> redaxios_catch error)"

section \<open>Compatibility Facade\<close>

definition isCancel :: "jsval \<Rightarrow> jsval" where
  "isCancel error =
     js_or (js_and error (strict_eq_str (get_prop error ''name'') ''AbortError''))
       (js_or (js_and error (strict_eq_str (get_prop error ''code'') ''ERR_CANCELED''))
              (js_and error (strict_eq_str (get_prop error ''message'') ''canceled'')))"

section \<open>Speedometer\<close>

text \<open>
  Byte counts and clock readings are integers, and quotients are taken exactly, as
  rationals, where the code computes them in double precision. \<^verbatim>\<open>new Array(n)\<close>
  has \<open>n\<close> holes; a hole reads as \<^verbatim>\<open>undefined\<close> (\<open>None\<close>), and adding
  \<^verbatim>\<open>undefined\<close> to a number gives \<^verbatim>\<open>NaN\<close>. A write past the end extends the
  array.
\<close>

datatype jsnum = NaN | Fin int

definition new_Array :: "nat \<Rightarrow> 'a option list" where
  "new_Array n = replicate n None"

definition slot :: "'a option list \<Rightarrow> nat \<Rightarrow> 'a option" where
  "slot xs i = (if i < length xs then xs ! i else None)"

definition store :: "'a option list \<Rightarrow> nat \<Rightarrow> 'a \<Rightarrow> 'a option list" where
  "store xs i v =
     (if i < length xs then xs[i := Some v]
      else xs @ replicate (i - length xs) None @ [Some v])"

fun add_slot :: "jsnum \<Rightarrow> int option \<Rightarrow> jsnum" where
  "add_slot (Fin a) (Some b) = Fin (a + b)"
| "add_slot a b = NaN"

text \<open>\<^verbatim>\<open>Math.round(x)\<close> is the integer nearest to \<open>x\<close>, a tie going up.\<close>

definition math_round :: "rat \<Rightarrow> int" where
  "math_round x = \<lfloor>x + 1 / 2\<rfloor>"

fun rate_of :: "jsnum \<Rightarrow> int \<Rightarrow> jsnum" where
  "rate_of (Fin bytesCount) passed = Fin (math_round (of_int (bytesCount * 1000) / of_int passed))"
| "rate_of NaN passed = NaN"

subsection \<open>The ring buffer of \<^verbatim>\<open>progress.js\<close>\<close>

text \<open>
  \<^verbatim>\<open>speedometer(samplesCount, min)\<close> of \<^verbatim>\<open>src/progress.js\<close>; the first
  \<^verbatim>\<open>createSpeedometer\<close> of \<^verbatim>\<open>src/stream.js\<close> has the same text. The state is what
  the closure \<^verbatim>\<open>push\<close> holds. \<open>samplesCount\<close> is positive (the code passes 10), so
  \<^verbatim>\<open>%\<close> is \<open>mod\<close>.
\<close>

record speedometer_state =
  sp_bytes :: "int option list"
  sp_timestamps :: "int option list"
  sp_head :: nat
  sp_tail :: nat
  firstSampleTS :: "int option"

definition speedometer :: "nat \<Rightarrow> speedometer_state" where
  "speedometer samplesCount =
     \<lparr> sp_bytes = new_Array samplesCount, sp_timestamps = new_Array samplesCount,
       sp_head = 0, sp_tail = 0, firstSampleTS = None \<rparr>"

text \<open>
  \<^verbatim>\<open>while (i !== head) { bytesCount += bytes[i++]; i = i % samplesCount; }\<close>
  The loop runs forever when \<open>i\<close> never meets \<open>head\<close>; then the result is \<open>None\<close>.
\<close>

partial_function (option) sum_loop ::
  "int option list \<Rightarrow> nat \<Rightarrow> nat \<Rightarrow> nat \<Rightarrow> jsnum \<Rightarrow> jsnum option" where
  "sum_loop bytes samplesCount head i bytesCount =
     (if i \<noteq> head
      then sum_loop bytes samplesCount head ((i + 1) mod samplesCount) (add_slot bytesCount (slot bytes i))
      else Some bytesCount)"

declare sum_loop.simps [code]

text \<open>
  \<^verbatim>\<open>push(chunkLength)\<close>, with the reading \<open>now\<close> of \<^verbatim>\<open>Date.now()\<close>; \<open>minMs\<close> is
  the parameter \<^verbatim>\<open>min\<close>. The rate is
  \<open>None\<close> for \<^verbatim>\<open>undefined\<close>; \<^verbatim>\<open>!firstSampleTS\<close> holds of \<^verbatim>\<open>undefined\<close> and of 0,
  and \<^verbatim>\<open>timestamps[tail] && now - timestamps[tail]\<close> is falsy when the time stamp
  is a hole or 0 and when the difference is 0.
\<close>

definition speedometer_push ::
  "nat \<Rightarrow> int \<Rightarrow> speedometer_state \<Rightarrow> int \<Rightarrow> int \<Rightarrow> (jsnum option \<times> speedometer_state) option" where
  "speedometer_push samplesCount minMs st now chunkLength =
     (let first = (case firstSampleTS st of
                     None \<Rightarrow> now
                   | Some t \<Rightarrow> if t = 0 then now else t);
          bytes = store (sp_bytes st) (sp_head st) chunkLength;
          timestamps = store (sp_timestamps st) (sp_head st) now
      in case sum_loop bytes samplesCount (sp_head st) (sp_tail st) (Fin 0) of
           None \<Rightarrow> None
         | Some bytesCount \<Rightarrow>
             let head = (sp_head st + 1) mod samplesCount;
                 tail = (if head = sp_tail st then (sp_tail st + 1) mod samplesCount
                         else sp_tail st)
             in Some
                  (if now - first < minMs then None
                   else (case slot timestamps tail of
                           None \<Rightarrow> None
                         | Some t \<Rightarrow>
                             if t = 0 \<or> now - t = 0 then None
                             else Some (rate_of bytesCount (now - t))),
                   \<lparr> sp_bytes = bytes, sp_timestamps = timestamps,
                     sp_head = head, sp_tail = tail, firstSampleTS = Some first \<rparr>))"

text \<open>A speedometer fed a sequence of samples \<open>(chunkLength, now)\<close>: the rates it returns.\<close>

fun speedometer_run ::
  "nat \<Rightarrow> int \<Rightarrow> speedometer_state \<Rightarrow> (int \<times> int) list \<Rightarrow> (jsnum option list \<times> speedometer_state) option" where
  "speedometer_run samplesCount minMs st [] = Some ([], st)"
| "speedometer_run samplesCount minMs st ((chunkLength, now) # samples) =
     (case speedometer_push samplesCount minMs st now chunkLength of
        None \<Rightarrow> None
      | Some (r, st') \<Rightarrow>
          (case speedometer_run samplesCount minMs st' samples of
             None \<Rightarrow> None
           | Some (rs, st'') \<Rightarrow> Some (r # rs, st'')))"

subsection \<open>The sample list of \<^verbatim>\<open>stream.js\<close>\<close>

text \<open>
  The second \<^verbatim>\<open>createSpeedometer(samples = 10, minTime = 300)\<close> of
  \<^verbatim>\<open>src/stream.js\<close>, which keeps the samples \<open>(bytes, now)\<close> in an array.
\<close>

text \<open>\<^verbatim>\<open>while (samplesBuf.length > samples) samplesBuf.shift()\<close>\<close>

function drop_old :: "nat \<Rightarrow> (int \<times> int) list \<Rightarrow> (int \<times> int) list" where
  "drop_old samples samplesBuf =
     (if length samplesBuf > samples then drop_old samples (tl samplesBuf) else samplesBuf)"
  by pat_completeness auto
termination
  by (relation "measure (\<lambda>(samples, samplesBuf). length samplesBuf)") auto

declare drop_old.simps [simp del]

definition createSpeedometer_push ::
  "nat \<Rightarrow> int \<Rightarrow> (int \<times> int) list \<Rightarrow> int \<Rightarrow> int \<Rightarrow> jsnum option \<times> (int \<times> int) list" where
  "createSpeedometer_push samples minTime samplesBuf0 now bytes =
     (let samplesBuf = drop_old samples (samplesBuf0 @ [(bytes, now)])
      in (case samplesBuf of
            [] \<Rightarrow> None
          | first # rest \<Rightarrow>
              let last_now = snd (last samplesBuf)
              in if last_now - snd first < minTime then None
                 else
                   let totalBytes = foldl (\<lambda>s x. s + fst x) 0 samplesBuf;
                       duration = last_now - snd first
                   in if duration > 0
                      then Some (Fin (math_round (of_int (totalBytes * 1000) / of_int duration)))
                      else None,
          samplesBuf))"

fun createSpeedometer_run ::
  "nat \<Rightarrow> int \<Rightarrow> (int \<times> int) list \<Rightarrow> (int \<times> int) list \<Rightarrow> jsnum option list \<times> (int \<times> int) list" where
  "createSpeedometer_run samples minTime samplesBuf [] = ([], samplesBuf)"
| "createSpeedometer_run samples minTime samplesBuf ((bytes, now) # later) =
     (let (r, samplesBuf') = createSpeedometer_push samples minTime samplesBuf now bytes;
          (rs, samplesBuf'') = createSpeedometer_run samples minTime samplesBuf' later
      in (r # rs, samplesBuf''))"

subsection \<open>The rate in terms of the samples pushed\<close>

text \<open>
  What a push returns, said of the history of samples \<open>(bytes, now)\<close> pushed so far
  rather than of the buffers. \<open>retained n h\<close> is the window of the last \<open>n\<close> samples
  of \<open>h\<close>.

  For the ring buffer as long as it has evicted nothing, after the claim's words
  (\<open>first_window_rate\<close>): the rate is \<^verbatim>\<open>undefined\<close> while fewer than \<open>minMs\<close>
  milliseconds have passed since the first sample, and when no time has passed since
  it; otherwise it is the rounded quotient of the bytes by the time, the bytes being
  those of the samples pushed before this one and the time being measured from the
  first sample.

  For the sample list (\<open>list_window_rate\<close>): the window is the last \<open>samples\<close>
  samples, the one being pushed included, bytes and time are both taken over it, and
  the rate is \<^verbatim>\<open>undefined\<close> while the window itself spans less than \<open>minTime\<close>
  milliseconds.
\<close>

definition retained :: "nat \<Rightarrow> 'a list \<Rightarrow> 'a list" where
  "retained n h = drop (length h - n) h"

definition first_window_rate :: "int \<Rightarrow> (int \<times> int) list \<Rightarrow> int \<Rightarrow> int \<Rightarrow> jsnum option" where
  "first_window_rate minMs earlier now chunkLength =
     (let h = earlier @ [(chunkLength, now)];
          totalBytes = sum_list (map fst earlier);
          elapsedMs = now - snd (hd h)
      in if elapsedMs < minMs \<or> elapsedMs = 0 then None
         else Some (Fin (math_round (of_int (totalBytes * 1000) / of_int elapsedMs))))"

definition list_window_rate :: "nat \<Rightarrow> int \<Rightarrow> (int \<times> int) list \<Rightarrow> int \<Rightarrow> int \<Rightarrow> jsnum option" where
  "list_window_rate samples minTime earlier now bytes =
     (let window = retained samples (earlier @ [(bytes, now)]);
          totalBytes = sum_list (map fst window);
          elapsedMs = now - snd (hd window)
      in if elapsedMs < minTime \<or> elapsedMs \<le> 0 then None
         else Some (Fin (math_round (of_int (totalBytes * 1000) / of_int elapsedMs))))"

text \<open>
  What the loop and the reads of a push make of the ring buffer whatever its age, used
  to follow the buffer through a run: the bytes summed are those of the
  \<open>samplesCount - 1\<close> samples before the push, the time stamp read is that of the
  oldest of the \<open>samplesCount - 1\<close> samples after it.
\<close>

definition ring_window_rate :: "nat \<Rightarrow> int \<Rightarrow> (int \<times> int) list \<Rightarrow> int \<Rightarrow> int \<Rightarrow> jsnum option" where
  "ring_window_rate samplesCount minMs earlier now chunkLength =
     (let h = earlier @ [(chunkLength, now)];
          totalBytes = sum_list (map fst (retained (samplesCount - 1) earlier));
          elapsedMs = now - snd (hd (retained (samplesCount - 1) h))
      in if now - snd (hd h) < minMs \<or> elapsedMs = 0 then None
         else Some (Fin (math_round (of_int (totalBytes * 1000) / of_int elapsedMs))))"

text \<open>
  The ring buffer after the samples \<open>h\<close>: sample \<open>j\<close> sits in slot
  \<open>j mod samplesCount\<close> as long as it is among the last \<open>samplesCount\<close>.
\<close>

definition ring_holds :: "nat \<Rightarrow> (int \<times> int) list \<Rightarrow> speedometer_state \<Rightarrow> bool" where
  "ring_holds samplesCount h st =
     (length (sp_bytes st) = samplesCount
      \<and> length (sp_timestamps st) = samplesCount
      \<and> sp_head st = length h mod samplesCount
      \<and> sp_tail st = (if length h < samplesCount then 0 else (length h + 1) mod samplesCount)
      \<and> (\<forall>j < length h. length h \<le> j + samplesCount \<longrightarrow>
             sp_bytes st ! (j mod samplesCount) = Some (fst (h ! j))
           \<and> sp_timestamps st ! (j mod samplesCount) = Some (snd (h ! j)))
      \<and> firstSampleTS st = (if h = [] then None else Some (snd (hd h))))"

section \<open>Progress Event Synthesizer\<close>

record progress_event =
  ev_loaded :: int
  ev_total :: "int option"
  ev_progress :: "rat option"
  ev_bytes :: int
  ev_rate :: "jsnum option"
  ev_estimated :: "rat option"
  ev_upload :: bool
  ev_download :: bool
  ev_lengthComputable :: bool

text \<open>A rate is truthy when it is a number other than 0 and \<^verbatim>\<open>NaN\<close>.\<close>

fun truthy_rate :: "jsnum option \<Rightarrow> int option" where
  "truthy_rate (Some (Fin r)) = (if r = 0 then None else Some r)"
| "truthy_rate r = None"

text \<open>
  \<^verbatim>\<open>toAxiosProgress(loaded, total, bytes, isUpload, speedometerFn)\<close> of
  \<^verbatim>\<open>src/progress.js\<close> (\<^verbatim>\<open>createProgressEvent\<close> in \<^verbatim>\<open>src/stream.js\<close>), where
  \<open>totalLen\<close> is a number and the speedometer is the ring buffer made by
  \<^verbatim>\<open>speedometer(10, 1000)\<close>; its state is passed in and out.
\<close>

definition toAxiosProgress ::
  "int \<Rightarrow> int \<Rightarrow> int \<Rightarrow> bool \<Rightarrow> speedometer_state \<Rightarrow> int \<Rightarrow> (progress_event \<times> speedometer_state) option" where
  "toAxiosProgress loaded totalLen bytes isUpload meter now =
     (let lengthComputable = (totalLen > 0);
          progress = (if lengthComputable then Some (of_int loaded / of_int totalLen) else None)
      in case speedometer_push 10 1000 meter now bytes of
           None \<Rightarrow> None
         | Some (rate, meter') \<Rightarrow>
             let estimated =
                   (case truthy_rate rate of
                      Some r \<Rightarrow>
                        if totalLen \<noteq> 0 \<and> loaded \<le> totalLen
                        then Some (of_int (totalLen - loaded) / of_int r)
                        else None
                    | None \<Rightarrow> None)
             in Some (\<lparr> ev_loaded = loaded,
                        ev_total = (if lengthComputable then Some totalLen else None),
                        ev_progress = progress,
                        ev_bytes = bytes,
                        ev_rate = rate,
                        ev_estimated = estimated,
                        ev_upload = isUpload,
                        ev_download = (\<not> isUpload),
                        ev_lengthComputable = lengthComputable \<rparr>,
                      meter'))"

text \<open>
  \<^verbatim>\<open>progressEvent({ loaded, total, bytes, rate, upload })\<close> of \<^verbatim>\<open>src/stream.js\<close>,
  where \<open>totalLen\<close> (the field \<^verbatim>\<open>total\<close>) may be \<^verbatim>\<open>undefined\<close>.
\<close>

definition progressEvent :: "int \<Rightarrow> int option \<Rightarrow> int \<Rightarrow> jsnum option \<Rightarrow> bool \<Rightarrow> progress_event" where
  "progressEvent loaded totalLen bytes rate upload =
     (let lengthComputable = (case totalLen of Some t \<Rightarrow> t > 0 | None \<Rightarrow> False)
      in \<lparr> ev_loaded = loaded,
           ev_total = (if lengthComputable then totalLen else None),
           ev_progress = (if lengthComputable then Some (of_int loaded / of_int (the totalLen)) else None),
           ev_bytes = bytes,
           ev_rate = rate,
           ev_estimated =
             (case truthy_rate rate of
                Some r \<Rightarrow>
                  if lengthComputable then Some (of_int (the totalLen - loaded) / of_int r) else None
              | None \<Rightarrow> None),
           ev_upload = upload,
           ev_download = (\<not> upload),
           ev_lengthComputable = lengthComputable \<rparr>)"

section \<open>Stream Instrumentation\<close>

text \<open>
  A chunk is its \<^verbatim>\<open>byteLength\<close>; the transforms forward every chunk as it is. A run
  of a transform is given the chunks in order, each with the clock reading at the call
  of \<^verbatim>\<open>transform\<close>, and the reading at the call of \<^verbatim>\<open>flush\<close>; its result is the
  list of events handed to \<^verbatim>\<open>onProgress\<close>, in order.
\<close>

subsection \<open>\<^verbatim>\<open>withProgress\<close>: events one chunk late, and a flush\<close>

text \<open>
  The transform of \<^verbatim>\<open>withProgress(stream, totalBytes, onProgress, isUpload)\<close> in
  \<^verbatim>\<open>src/progress.js\<close>; \<^verbatim>\<open>wrapStreamWithProgress\<close> in \<^verbatim>\<open>src/stream.js\<close> has
  the same transform. In \<^verbatim>\<open>progress.js\<close> it also sets a local \<^verbatim>\<open>percent\<close> to
  \<^verbatim>\<open>transferredBytes / totalBytes\<close>, lowers it to \<^verbatim>\<open>1 - Number.EPSILON\<close> when it
  is 1 or more, and never reads it: the event is built from \<^verbatim>\<open>transferredBytes\<close> and
  \<^verbatim>\<open>totalBytes\<close>, so no value here depends on \<^verbatim>\<open>percent\<close>.
\<close>

record progress_state =
  previousChunk :: "int option"
  transferredBytes :: int
  meter :: speedometer_state

definition withProgress_start :: progress_state where
  "withProgress_start = \<lparr> previousChunk = None, transferredBytes = 0, meter = speedometer 10 \<rparr>"

definition emit_previous ::
  "int \<Rightarrow> bool \<Rightarrow> progress_state \<Rightarrow> int \<Rightarrow> (progress_event list \<times> progress_state) option" where
  "emit_previous totalBytes isUpload st now =
     (case previousChunk st of
        None \<Rightarrow> Some ([], st)
      | Some previous \<Rightarrow>
          let transferred = transferredBytes st + previous
          in case toAxiosProgress transferred totalBytes previous isUpload (meter st) now of
               None \<Rightarrow> None
             | Some (ev, meter') \<Rightarrow>
                 Some ([ev], st\<lparr> transferredBytes := transferred, meter := meter' \<rparr>))"

definition withProgress_transform ::
  "int \<Rightarrow> bool \<Rightarrow> progress_state \<Rightarrow> int \<Rightarrow> int \<Rightarrow> (progress_event list \<times> progress_state) option" where
  "withProgress_transform totalBytes isUpload st currentChunk now =
     (case emit_previous totalBytes isUpload st now of
        None \<Rightarrow> None
      | Some (evs, st') \<Rightarrow> Some (evs, st'\<lparr> previousChunk := Some currentChunk \<rparr>))"

definition withProgress_flush ::
  "int \<Rightarrow> bool \<Rightarrow> progress_state \<Rightarrow> int \<Rightarrow> (progress_event list \<times> progress_state) option" where
  "withProgress_flush totalBytes isUpload st now = emit_previous totalBytes isUpload st now"

fun withProgress_run ::
  "int \<Rightarrow> bool \<Rightarrow> progress_state \<Rightarrow> (int \<times> int) list \<Rightarrow> int \<Rightarrow> (progress_event list \<times> progress_event list) option" where
  "withProgress_run totalBytes isUpload st [] flush_now =
     (case withProgress_flush totalBytes isUpload st flush_now of
        None \<Rightarrow> None
      | Some (evs, st') \<Rightarrow> Some ([], evs))"
| "withProgress_run totalBytes isUpload st ((currentChunk, now) # chunks) flush_now =
     (case withProgress_transform totalBytes isUpload st currentChunk now of
        None \<Rightarrow> None
      | Some (evs, st') \<Rightarrow>
          (case withProgress_run totalBytes isUpload st' chunks flush_now of
             None \<Rightarrow> None
           | Some (before, at_flush) \<Rightarrow> Some (evs @ before, at_flush)))"

text \<open>
  The events of a whole stream: those emitted by the calls of \<^verbatim>\<open>transform\<close>, and
  those emitted by \<^verbatim>\<open>flush\<close>.
\<close>

definition withProgress_events ::
  "int \<Rightarrow> bool \<Rightarrow> (int \<times> int) list \<Rightarrow> int \<Rightarrow> (progress_event list \<times> progress_event list) option" where
  "withProgress_events totalBytes isUpload chunks flush_now =
     withProgress_run totalBytes isUpload withProgress_start chunks flush_now"

subsection \<open>\<^verbatim>\<open>wrapStream\<close>: an event with every chunk, no flush\<close>

text \<open>
  The transform of \<^verbatim>\<open>wrapStream(stream, total, onProgress, upload)\<close> in
  \<^verbatim>\<open>src/stream.js\<close>, with the speedometer \<^verbatim>\<open>createSpeedometer()\<close> of 10 samples
  and 300 ms. The transform has no \<^verbatim>\<open>flush\<close>.
\<close>

fun wrapStream_run ::
  "int option \<Rightarrow> bool \<Rightarrow> int \<Rightarrow> (int \<times> int) list \<Rightarrow> (int \<times> int) list \<Rightarrow> progress_event list" where
  "wrapStream_run totalLen upload loaded0 samplesBuf [] = []"
| "wrapStream_run totalLen upload loaded0 samplesBuf ((chunk, now) # chunks) =
     (let loaded = loaded0 + chunk;
          (rate, samplesBuf') = createSpeedometer_push 10 300 samplesBuf now chunk
      in progressEvent loaded totalLen chunk rate upload
           # wrapStream_run totalLen upload loaded samplesBuf' chunks)"

definition wrapStream_events :: "int option \<Rightarrow> bool \<Rightarrow> (int \<times> int) list \<Rightarrow> progress_event list" where
  "wrapStream_events totalLen upload chunks = wrapStream_run totalLen upload 0 [] chunks"

subsection \<open>Streams and responses\<close>

text \<open>
  A stream is the chunks its source yields and the progress transforms piped onto it.
  \<^verbatim>\<open>withProgress\<close> returns its argument when the callback or the stream is missing.
\<close>

datatype tap = Delayed int bool

record stream =
  st_chunks :: "int list"
  st_taps :: "tap list"

definition withProgress :: "stream option \<Rightarrow> int \<Rightarrow> jsval \<Rightarrow> bool \<Rightarrow> stream option" where
  "withProgress strm totalBytes onProgress isUpload =
     (case strm of
        None \<Rightarrow> None
      | Some s \<Rightarrow>
          if \<not> truthy onProgress then strm
          else Some (s\<lparr> st_taps := st_taps s @ [Delayed totalBytes isUpload] \<rparr>))"

text \<open>
  The events a body gives rise to when it is read to its end, the clock readings being
  \<open>clock\<close> at the chunks and \<open>flush_now\<close> at the end. A \<^verbatim>\<open>null\<close> body has no
  stream, and no transform that could call the callback.
\<close>

fun tap_events :: "int list \<Rightarrow> int list \<Rightarrow> int \<Rightarrow> tap \<Rightarrow> progress_event list option" where
  "tap_events chunks clock flush_now (Delayed totalBytes isUpload) =
     map_option (\<lambda>(before, at_flush). before @ at_flush)
       (withProgress_events totalBytes isUpload (zip chunks clock) flush_now)"

fun all_events :: "progress_event list option list \<Rightarrow> progress_event list option" where
  "all_events [] = Some []"
| "all_events (None # rest) = None"
| "all_events (Some evs # rest) = map_option (\<lambda>later. evs @ later) (all_events rest)"

definition body_events :: "stream option \<Rightarrow> int list \<Rightarrow> int \<Rightarrow> progress_event list option" where
  "body_events body clock flush_now =
     (case body of
        None \<Rightarrow> Some []
      | Some s \<Rightarrow> all_events (map (tap_events (st_chunks s) clock flush_now) (st_taps s)))"

text \<open>
  The response handed to the download wrapper: status, status text, headers, the number
  read from the \<^verbatim>\<open>content-length\<close> header
  (\<^verbatim>\<open>Number(response.headers.get('content-length'))\<close>), and the body, \<open>None\<close> for
  \<^verbatim>\<open>null\<close>. The wrapper returns its argument or a response made by
  \<^verbatim>\<open>new Response(body, { status, statusText, headers })\<close>.
\<close>

record fetch_response =
  fr_status :: nat
  fr_statusText :: string
  fr_headers :: "(string \<times> string) list"
  fr_content_length :: jsnum
  fr_body :: "stream option"

datatype returned = The_argument | New_Response fetch_response

fun response_of :: "fetch_response \<Rightarrow> returned \<Rightarrow> fetch_response" where
  "response_of response The_argument = response"
| "response_of response (New_Response r) = r"

text \<open>\<^verbatim>\<open>Math.max(0, Number(response.headers.get('content-length')) || 0)\<close>\<close>

fun content_length_total :: "jsnum \<Rightarrow> int" where
  "content_length_total NaN = 0"
| "content_length_total (Fin n) = max 0 n"

text \<open>\<^verbatim>\<open>streamResponse(response, onDownloadProgress)\<close> of \<^verbatim>\<open>src/progress.js\<close>.\<close>

definition streamResponse :: "fetch_response \<Rightarrow> jsval \<Rightarrow> returned" where
  "streamResponse response onDownloadProgress =
     (if fr_body response = None \<or> \<not> truthy onDownloadProgress then The_argument
      else if fr_status response = 204
      then New_Response (response\<lparr> fr_body := None \<rparr>)
      else
        let totalBytes = content_length_total (fr_content_length response)
        in New_Response
             (response\<lparr> fr_body := withProgress (fr_body response) totalBytes onDownloadProgress False \<rparr>))"

text \<open>
  \<^verbatim>\<open>wrapResponseWithProgress(response, onDownloadProgress)\<close>, the first of that name
  in \<^verbatim>\<open>src/stream.js\<close>, over \<^verbatim>\<open>wrapStreamWithProgress\<close>, whose transform is the
  one of \<^verbatim>\<open>withProgress\<close>.
\<close>

definition wrapStreamWithProgress :: "stream option \<Rightarrow> int \<Rightarrow> jsval \<Rightarrow> bool \<Rightarrow> stream option" where
  "wrapStreamWithProgress strm totalBytes onProgress isUpload =
     (case strm of
        None \<Rightarrow> None
      | Some s \<Rightarrow>
          if \<not> truthy onProgress then strm
          else Some (s\<lparr> st_taps := st_taps s @ [Delayed totalBytes isUpload] \<rparr>))"

definition wrapResponseWithProgress :: "fetch_response \<Rightarrow> jsval \<Rightarrow> returned" where
  "wrapResponseWithProgress response onDownloadProgress =
     (if fr_body response = None \<or> \<not> truthy onDownloadProgress then The_argument
      else if fr_status response = 204
      then New_Response (response\<lparr> fr_body := None \<rparr>)
      else
        let totalBytes = content_length_total (fr_content_length response)
        in New_Response
             (response\<lparr> fr_body :=
                wrapStreamWithProgress (fr_body response) totalBytes onDownloadProgress False \<rparr>))"

section \<open>Inputs used in the examples\<close>

text \<open>
  An engine whose arrays inherit \<^verbatim>\<open>push\<close>, \<^verbatim>\<open>concat\<close> and \<^verbatim>\<open>map\<close>, and whose
  functions have a read-only \<^verbatim>\<open>name\<close> and \<^verbatim>\<open>length\<close>, inherit \<^verbatim>\<open>call\<close>,
  \<^verbatim>\<open>apply\<close> and \<^verbatim>\<open>bind\<close>, and throw at \<^verbatim>\<open>caller\<close> and \<^verbatim>\<open>arguments\<close>.
\<close>

definition example_engine :: engine where
  "example_engine =
     \<lparr> array_prototype_member =
         (\<lambda>key. if key \<in> set [''push'', ''concat'', ''map''] then Data_member (JFn key) else No_member),
       function_member =
         (\<lambda>n key. if key = ''name'' then Readonly_member (JStr n)
                  else if key = ''length'' then Readonly_member (JNum 0)
                  else if key \<in> set [''call'', ''apply'', ''bind''] then Data_member (JFn key)
                  else if key \<in> set [''caller'', ''arguments''] then Throwing_accessor
                  else No_member) \<rparr>"

text \<open>
  A platform with that engine and both stream interfaces, no XSRF cookie, no URL
  rewriting, whose \<^verbatim>\<open>JSON.parse\<close> reads the one document of the examples and whose
  functions return \<^verbatim>\<open>undefined\<close>.
\<close>

definition hello_json :: string where
  "hello_json = [CHR ''{'', CHR 0x22] @ ''hello'' @ [CHR 0x22, CHR '':'', CHR 0x22] @ ''world''
                 @ [CHR 0x22, CHR ''}'']"

definition example_platform :: platform where
  "example_platform =
     \<lparr> js_engine = example_engine,
       call_fn = (\<lambda>f args. JUndefined),
       json_parse = (\<lambda>s. if s = hello_json then Some (JObj [(''hello'', JStr ''world'')]) else None),
       json_stringify = (\<lambda>v. JStr hello_json),
       has_Request = True,
       has_ReadableStream = True,
       xsrf_header = None,
       resolve_url = (\<lambda>options url. case url of JStr u \<Rightarrow> u | _ \<Rightarrow> []),
       upload_request = (\<lambda>url init. True) \<rparr>"

definition example_response :: "nat \<Rightarrow> bool \<Rightarrow> string \<Rightarrow> raw_response" where
  "example_response status ok text =
     \<lparr> res_status = status, res_ok = ok, res_statusText = [], res_url = ''/foo'',
       res_headers = JObj [], res_body = JNull,
       res_decode = (\<lambda>name. if name = ''text'' then Some (Fulfilled (JStr text)) else None) \<rparr>"

chapter \<open>Properties\<close>

section \<open>Reading and writing properties\<close>

lemmas js_defs = get_own_def object_prototype_names_def js_or_def js_and_def strict_eq_str_def
  has_own_def

lemma map_of_update_own: "map_of (update_own out k v) = (map_of out)(k \<mapsto> v)"
  by (induction out k v rule: update_own.induct) auto



lemma keys_update_own: "fst ` set (update_own out k v) = insert k (fst ` set out)"
  by (induction out k v rule: update_own.induct) auto

lemma distinct_update_own: "distinct (map fst out) \<Longrightarrow> distinct (map fst (update_own out k v))"
  by (induction out k v rule: update_own.induct) (auto simp: keys_update_own)

lemma update_own_new: "k \<notin> fst ` set out \<Longrightarrow> update_own out k v = out @ [(k, v)]"
  by (induction out k v rule: update_own.induct) auto

lemma get_own_cong: "map_of out k = map_of out' k \<Longrightarrow> get_own out k = get_own out' k"
  by (simp add: get_own_def)

lemma in_plain_cong: "map_of out k = map_of out' k \<Longrightarrow> in_plain k out = in_plain k out'"
  by (simp add: in_plain_def) (metis domIff dom_map_of_conv_image_fst)

section \<open>An object that keeps its prototype\<close>

lemma set_prop_plain:
  "key \<noteq> ''__proto__'' \<Longrightarrow>
   set_prop eng (own, JObjectPrototype) key v = Some (update_own own key v, JObjectPrototype)"
  by (simp add: set_prop_def object_prototype_member_def)

lemma in_op_plain: "in_op eng key (own, JObjectPrototype) = in_plain key own"
  by (simp add: in_op_def in_plain_def object_prototype_member_def)

lemma get_member_plain:
  "key \<noteq> ''__proto__'' \<Longrightarrow> get_member eng (own, JObjectPrototype) key = Some (get_own own key)"
  by (simp add: get_member_def get_own_def object_prototype_member_def split: option.split)

lemma copy_loop_plain:
  "\<forall>p \<in> set ps. fold_key lc (fst p) \<noteq> ''__proto__'' \<Longrightarrow>
   foldl (copy_step eng lc) (Some (own, JObjectPrototype)) ps
     = Some (foldl (copy_own lc) own ps, JObjectPrototype)"
  by (induction ps arbitrary: own) (simp_all add: copy_step_def copy_own_def set_prop_plain)

lemma merge_step_plain:
  "fold_key lc (fst p) \<noteq> ''__proto__'' \<Longrightarrow>
   merge_step eng lc (map_option (\<lambda>own. (own, JObjectPrototype)) out) p
     = map_option (\<lambda>own. (own, JObjectPrototype)) (merge_own eng lc out p)"
  by (cases out)
     (simp_all add: merge_step_def merge_own_def Let_def in_op_plain get_member_plain set_prop_plain
        split: option.split)

lemma merge_loop_plain:
  "\<forall>p \<in> set ps. fold_key lc (fst p) \<noteq> ''__proto__'' \<Longrightarrow>
   foldl (merge_step eng lc) (map_option (\<lambda>own. (own, JObjectPrototype)) out) ps
     = map_option (\<lambda>own. (own, JObjectPrototype)) (foldl (merge_own eng lc) out ps)"
  by (induction ps arbitrary: out) (simp_all add: merge_step_plain)

section \<open>Config Merger: the two loops\<close>

lemma deepMerge_object:
  "\<not> (\<exists>xs. opts = JArr xs) \<Longrightarrow>
   deepMerge eng opts overrides lowerCase =
     map_option object_value
       (foldl (merge_step eng lowerCase)
          (foldl (copy_step eng lowerCase) (Some empty_object) (for_in opts)) (for_in overrides))"
  by (subst deepMerge.simps, cases opts) (simp_all add: merge_step_def [abs_def])

lemma deepMerge_array: "deepMerge eng (JArr xs) overrides lowerCase = Some (concat_js xs overrides)"
  by (subst deepMerge.simps) simp

lemma deepMerge_plain:
  assumes "\<not> (\<exists>xs. opts = JArr xs)"
    and "\<forall>p \<in> set (for_in opts). fold_key lc (fst p) \<noteq> ''__proto__''"
    and "\<forall>p \<in> set (for_in overrides). fold_key lc (fst p) \<noteq> ''__proto__''"
  shows "deepMerge eng opts overrides lc =
           map_option JObj
             (foldl (merge_own eng lc) (Some (foldl (copy_own lc) [] (for_in opts))) (for_in overrides))"
proof -
  have "deepMerge eng opts overrides lc =
          map_option object_value
            (foldl (merge_step eng lc)
               (map_option (\<lambda>own. (own, JObjectPrototype)) (Some (foldl (copy_own lc) [] (for_in opts))))
               (for_in overrides))"
    by (simp add: deepMerge_object [OF assms(1)] empty_object_def copy_loop_plain [OF assms(2)])
  also have "\<dots> = map_option object_value
            (map_option (\<lambda>own. (own, JObjectPrototype))
               (foldl (merge_own eng lc) (Some (foldl (copy_own lc) [] (for_in opts))) (for_in overrides)))"
    by (simp only: merge_loop_plain [OF assms(3)])
  also have "\<dots> = map_option JObj
             (foldl (merge_own eng lc) (Some (foldl (copy_own lc) [] (for_in opts))) (for_in overrides))"
    by (simp add: option.map_comp comp_def object_value_def)
  finally show ?thesis .
qed

lemma deepMerge_not_null: "deepMerge eng opts overrides lc = Some r \<Longrightarrow> r \<noteq> JNull"
proof (cases "\<exists>xs. opts = JArr xs")
  case True
  assume "deepMerge eng opts overrides lc = Some r"
  with True show ?thesis by (cases overrides) (auto simp: deepMerge_array)
next
  case False
  assume "deepMerge eng opts overrides lc = Some r"
  with False show ?thesis by (auto simp: deepMerge_object object_value_def split: if_splits)
qed

subsection \<open>The copy loop\<close>

lemma copy_loop_other:
  "k \<notin> (\<lambda>q. fold_key lc (fst q)) ` set ps \<Longrightarrow> map_of (foldl (copy_own lc) out ps) k = map_of out k"
  by (induction ps arbitrary: out) (auto simp: copy_own_def map_of_update_own)

lemma copy_loop_at:
  "distinct (map (\<lambda>q. fold_key lc (fst q)) ps) \<Longrightarrow> (i, x) \<in> set ps \<Longrightarrow>
   map_of (foldl (copy_own lc) out ps) (fold_key lc i) = Some x"
proof (induction ps arbitrary: out)
  case Nil
  then show ?case by simp
next
  case (Cons p ps)
  show ?case
  proof (cases "p = (i, x)")
    case True
    with Cons.prems have "fold_key lc i \<notin> (\<lambda>q. fold_key lc (fst q)) ` set ps" by auto
    then have "map_of (foldl (copy_own lc) (copy_own lc out p) ps) (fold_key lc i)
               = map_of (copy_own lc out p) (fold_key lc i)"
      by (rule copy_loop_other)
    also have "\<dots> = Some x"
      using True by (simp add: copy_own_def map_of_update_own)
    finally show ?thesis by simp
  next
    case False
    with Cons show ?thesis by auto
  qed
qed

lemma copy_loop_keys:
  "fst ` set (foldl (copy_own lc) out ps) = fst ` set out \<union> (\<lambda>q. fold_key lc (fst q)) ` set ps"
  by (induction ps arbitrary: out) (auto simp: copy_own_def keys_update_own)

lemma copy_loop_distinct:
  "distinct (map fst out) \<Longrightarrow> distinct (map fst (foldl (copy_own lc) out ps))"
  by (induction ps arbitrary: out) (auto simp: copy_own_def distinct_update_own)

lemma copy_loop_id:
  "distinct (map fst (out @ ps)) \<Longrightarrow> foldl (copy_own False) out ps = out @ ps"
proof (induction ps arbitrary: out)
  case Nil
  then show ?case by simp
next
  case (Cons p ps)
  from Cons.prems have "fst p \<notin> fst ` set out" by auto
  then have "copy_own False out p = out @ [p]"
    by (simp add: copy_own_def fold_key_def update_own_new)
  moreover from Cons.prems have "distinct (map fst ((out @ [p]) @ ps))" by simp
  ultimately show ?case using Cons.IH [of "out @ [p]"] by simp
qed

lemma copy_loop_map:
  "map_of (foldl (copy_own lc) out ps)
     = map_of out ++ map_of (rev (map (\<lambda>q. (fold_key lc (fst q), snd q)) ps))"
proof (induction ps arbitrary: out)
  case Nil
  then show ?case by simp
next
  case (Cons p ps)
  have "map_of (copy_own lc out p) = (map_of out)(fold_key lc (fst p) \<mapsto> snd p)"
    by (simp add: copy_own_def map_of_update_own)
  with Cons.IH [of "copy_own lc out p"] show ?case
    by (simp add: fun_eq_iff map_add_def split: option.split)
qed

subsection \<open>The merge loop\<close>

lemma merge_own_failed: "foldl (merge_own eng lc) None ps = None"
  by (induction ps) (simp_all add: merge_own_def)

lemma merge_own_turn:
  assumes "merge_own eng lc (Some out) p = Some res"
  shows "fst ` set res = insert (fold_key lc (fst p)) (fst ` set out)"
    and "k \<noteq> fold_key lc (fst p) \<Longrightarrow> map_of res k = map_of out k"
    and "distinct (map fst out) \<Longrightarrow> distinct (map fst res)"
    and "map_of res (fold_key lc (fst p)) =
           (if in_plain (fold_key lc (fst p)) out \<and> typeof_object (snd p)
            then deepMerge eng (get_own out (fold_key lc (fst p))) (snd p)
                   (fold_key lc (fst p) = ''headers'')
            else Some (snd p))"
proof -
  from assms obtain z where res: "res = update_own out (fold_key lc (fst p)) z"
    and z: "(if in_plain (fold_key lc (fst p)) out \<and> typeof_object (snd p)
            then deepMerge eng (get_own out (fold_key lc (fst p))) (snd p)
                   (fold_key lc (fst p) = ''headers'')
            else Some (snd p)) = Some z"
    by (auto simp: merge_own_def Let_def split: if_splits)
  show "fst ` set res = insert (fold_key lc (fst p)) (fst ` set out)"
    by (simp add: res keys_update_own)
  show "k \<noteq> fold_key lc (fst p) \<Longrightarrow> map_of res k = map_of out k"
    by (simp add: res map_of_update_own)
  show "distinct (map fst out) \<Longrightarrow> distinct (map fst res)"
    by (simp add: res distinct_update_own)
  show "map_of res (fold_key lc (fst p)) =
           (if in_plain (fold_key lc (fst p)) out \<and> typeof_object (snd p)
            then deepMerge eng (get_own out (fold_key lc (fst p))) (snd p)
                   (fold_key lc (fst p) = ''headers'')
            else Some (snd p))"
    unfolding z by (simp add: res map_of_update_own)
qed

lemma merge_loop_turn:
  assumes "foldl (merge_own eng lc) (Some out) (p # ps) = Some res"
  obtains mid where "merge_own eng lc (Some out) p = Some mid"
    and "foldl (merge_own eng lc) (Some mid) ps = Some res"
proof (cases "merge_own eng lc (Some out) p")
  case None
  with assms show ?thesis by (simp add: merge_own_failed)
next
  case (Some mid)
  with assms that show ?thesis by simp
qed

lemma merge_loop_other:
  "foldl (merge_own eng lc) (Some out) ps = Some res \<Longrightarrow>
   k \<notin> (\<lambda>q. fold_key lc (fst q)) ` set ps \<Longrightarrow> map_of res k = map_of out k"
proof (induction ps arbitrary: out)
  case Nil
  then show ?case by simp
next
  case (Cons p ps)
  from Cons.prems(1) obtain mid where m: "merge_own eng lc (Some out) p = Some mid"
    and r: "foldl (merge_own eng lc) (Some mid) ps = Some res"
    by (rule merge_loop_turn)
  from Cons.prems(2) have "k \<noteq> fold_key lc (fst p)"
    and "k \<notin> (\<lambda>q. fold_key lc (fst q)) ` set ps" by auto
  with Cons.IH [OF r] merge_own_turn(2) [OF m] show ?case by simp
qed

lemma merge_loop_keys:
  "foldl (merge_own eng lc) (Some out) ps = Some res \<Longrightarrow>
   fst ` set res = fst ` set out \<union> (\<lambda>q. fold_key lc (fst q)) ` set ps"
proof (induction ps arbitrary: out)
  case Nil
  then show ?case by simp
next
  case (Cons p ps)
  from Cons.prems obtain mid where m: "merge_own eng lc (Some out) p = Some mid"
    and r: "foldl (merge_own eng lc) (Some mid) ps = Some res"
    by (rule merge_loop_turn)
  from Cons.IH [OF r] merge_own_turn(1) [OF m] show ?case by auto
qed

lemma merge_loop_distinct:
  "foldl (merge_own eng lc) (Some out) ps = Some res \<Longrightarrow>
   distinct (map fst out) \<Longrightarrow> distinct (map fst res)"
proof (induction ps arbitrary: out)
  case Nil
  then show ?case by simp
next
  case (Cons p ps)
  from Cons.prems(1) obtain mid where m: "merge_own eng lc (Some out) p = Some mid"
    and r: "foldl (merge_own eng lc) (Some mid) ps = Some res"
    by (rule merge_loop_turn)
  from Cons.IH [OF r] merge_own_turn(3) [OF m] Cons.prems(2) show ?case by simp
qed

lemma merge_loop_at:
  "foldl (merge_own eng lc) (Some out) ps = Some res \<Longrightarrow>
   distinct (map (\<lambda>q. fold_key lc (fst q)) ps) \<Longrightarrow> (j, v) \<in> set ps \<Longrightarrow>
   map_of res (fold_key lc j) =
     (if in_plain (fold_key lc j) out \<and> typeof_object v
      then deepMerge eng (get_own out (fold_key lc j)) v (fold_key lc j = ''headers'')
      else Some v)"
proof (induction ps arbitrary: out)
  case Nil
  then show ?case by simp
next
  case (Cons p ps)
  from Cons.prems(1) obtain mid where m: "merge_own eng lc (Some out) p = Some mid"
    and r: "foldl (merge_own eng lc) (Some mid) ps = Some res"
    by (rule merge_loop_turn)
  show ?case
  proof (cases "p = (j, v)")
    case True
    with Cons.prems have "fold_key lc j \<notin> (\<lambda>q. fold_key lc (fst q)) ` set ps" by auto
    from merge_loop_other [OF r this]
    have "map_of res (fold_key lc j) = map_of mid (fold_key lc j)" .
    with merge_own_turn(4) [OF m] True show ?thesis by simp
  next
    case False
    with Cons.prems have mem: "(j, v) \<in> set ps" by simp
    from Cons.prems have d: "distinct (map (\<lambda>q. fold_key lc (fst q)) ps)" by simp
    have ne: "fold_key lc j \<noteq> fold_key lc (fst p)"
    proof
      assume "fold_key lc j = fold_key lc (fst p)"
      with mem have "fold_key lc (fst p) \<in> (\<lambda>q. fold_key lc (fst q)) ` set ps"
        by (metis fst_conv image_eqI)
      with Cons.prems show False by simp
    qed
    from merge_own_turn(2) [OF m ne]
    have same: "map_of mid (fold_key lc j) = map_of out (fold_key lc j)" .
    show ?thesis
      using Cons.IH [OF r d mem] get_own_cong [OF same] in_plain_cong [OF same]
      by simp
  qed
qed

lemma merge_loop_scalars:
  "\<forall>p \<in> set ps. \<not> typeof_object (snd p) \<Longrightarrow>
   foldl (merge_own eng lc) (Some out) ps = Some (foldl (copy_own lc) out ps)"
  by (induction ps arbitrary: out) (simp_all add: merge_own_def copy_own_def Let_def)

subsection \<open>The value at a key\<close>

lemma mergeConfig_objects:
  "mergeConfig eng (JObj a) (JObj b) = deepMerge eng (JObj a) (JObj b) False"
  by (simp add: mergeConfig_def js_or_def)

lemma fold_key_False [simp]: "fold_key False i = i"
  by (simp add: fold_key_def)

lemma absent_name: "k \<notin> fst ` set ps \<Longrightarrow> \<forall>p \<in> set ps. fold_key False (fst p) \<noteq> k"
  by (force simp: image_iff)

lemma merged_at:
  assumes "deepMerge eng (JObj a) (JObj b) lc = Some merged"
    and "\<forall>p \<in> set a. fold_key lc (fst p) \<noteq> ''__proto__''"
    and "\<forall>p \<in> set b. fold_key lc (fst p) \<noteq> ''__proto__''"
    and "distinct (map (\<lambda>q. fold_key lc (fst q)) b)" and "(j, v) \<in> set b"
  shows "(if in_plain (fold_key lc j) (foldl (copy_own lc) [] a) \<and> typeof_object v
          then deepMerge eng (get_own (foldl (copy_own lc) [] a) (fold_key lc j)) v
                 (fold_key lc j = ''headers'')
          else Some v) = Some (get_prop merged (fold_key lc j))"
proof -
  from assms(1) deepMerge_plain [of "JObj a" lc "JObj b" eng] assms(2,3)
  obtain res where res: "foldl (merge_own eng lc) (Some (foldl (copy_own lc) [] a)) b = Some res"
    and m: "merged = JObj res"
    by auto
  from assms(5) have "fold_key lc j \<in> (\<lambda>q. fold_key lc (fst q)) ` set b"
    by (metis fst_conv image_eqI)
  with merge_loop_keys [OF res] have "fold_key lc j \<in> fst ` set res" by simp
  then obtain y where y: "map_of res (fold_key lc j) = Some y"
    by (metis domIff dom_map_of_conv_image_fst not_Some_eq)
  then have "get_prop merged (fold_key lc j) = y"
    by (simp add: m get_own_def)
  with merge_loop_at [OF res assms(4,5)] y show ?thesis by simp
qed

lemma copied_at:
  assumes "distinct (map (\<lambda>q. fold_key lc (fst q)) a)" and "(i, x) \<in> set a"
  shows "get_own (foldl (copy_own lc) [] a) (fold_key lc i) = x"
    and "in_plain (fold_key lc i) (foldl (copy_own lc) [] a)"
proof -
  have m: "map_of (foldl (copy_own lc) [] a) (fold_key lc i) = Some x"
    using assms by (rule copy_loop_at)
  then show "get_own (foldl (copy_own lc) [] a) (fold_key lc i) = x"
    by (simp add: get_own_def)
  from m have "fold_key lc i \<in> fst ` set (foldl (copy_own lc) [] a)"
    by (metis domI dom_map_of_conv_image_fst)
  then show "in_plain (fold_key lc i) (foldl (copy_own lc) [] a)"
    by (simp add: in_plain_def)
qed

lemma not_copied:
  assumes "k \<notin> fst ` set a" and "k \<noteq> ''__proto__''" and "k \<notin> set object_prototype_names"
  shows "\<not> in_plain k (foldl (copy_own False) [] a)"
  using assms by (simp add: in_plain_def copy_loop_keys)

section \<open>Config Merger: the merge returns\<close>

lemma lower_char_idem: "lower_char (lower_char c) = lower_char c"
  by (simp add: lower_char_def)

lemma toLowerCase_idem: "toLowerCase (toLowerCase s) = toLowerCase s"
  by (simp add: toLowerCase_def lower_char_idem)

lemma proto_lower: "toLowerCase ''__proto__'' = ''__proto__''"
  by (simp add: toLowerCase_def lower_char_def)

lemma fold_key_free: "toLowerCase k \<noteq> ''__proto__'' \<Longrightarrow> toLowerCase (fold_key lc k) \<noteq> ''__proto__''"
  by (simp add: fold_key_def toLowerCase_idem)

lemma folded_not_proto: "toLowerCase k \<noteq> ''__proto__'' \<Longrightarrow> fold_key lc k \<noteq> ''__proto__''"
  using fold_key_free [of k lc] proto_lower by auto

lemma digit_not_underscore: "lower_char (digit_char d) \<noteq> CHR ''_''"
proof -
  have all: "\<forall>i \<in> set [0..<10]. lower_char (''0123456789'' ! i) \<noteq> CHR ''_''"
    by code_simp
  have "d mod 10 \<in> set [0..<10]" by simp
  with all show ?thesis unfolding digit_char_def by blast
qed

lemma string_of_nat_last: "string_of_nat n \<noteq> [] \<and> last (string_of_nat n) = digit_char n"
  by (subst (1 2) string_of_nat.simps) (simp add: digit_char_def)

lemma index_key_free: "toLowerCase (string_of_nat n) \<noteq> ''__proto__''"
proof
  assume a: "toLowerCase (string_of_nat n) = ''__proto__''"
  have "last (toLowerCase (string_of_nat n)) = lower_char (digit_char n)"
    using string_of_nat_last [of n] by (simp add: toLowerCase_def last_map)
  with a digit_not_underscore [of n] show False by simp
qed


lemma set_update_own: "set (update_own out k v) \<subseteq> insert (k, v) (set out)"
  by (induction out k v rule: update_own.induct) auto

lemma proto_free_update:
  "proto_free (JObj out) \<Longrightarrow> toLowerCase k \<noteq> ''__proto__'' \<Longrightarrow> proto_free v \<Longrightarrow>
   proto_free (JObj (update_own out k v))"
  using set_update_own [of out k v] by auto

lemma proto_free_get_own: "proto_free (JObj out) \<Longrightarrow> proto_free (get_own out k)"
  by (auto simp: get_own_def split: option.split dest!: map_of_SomeD)

lemma proto_free_for_in:
  "proto_free v \<Longrightarrow> \<forall>p \<in> set (for_in v). toLowerCase (fst p) \<noteq> ''__proto__'' \<and> proto_free (snd p)"
proof (cases v)
  case (JArr xs)
  assume "proto_free v"
  with JArr show ?thesis
    by (auto simp: index_keys_def index_key_free elim!: in_set_zipE)
next
  case (JStr s)
  then show ?thesis
    by (auto simp: index_keys_def index_key_free elim!: in_set_zipE)
qed auto

lemma proto_free_copy:
  "proto_free (JObj out) \<Longrightarrow>
   \<forall>p \<in> set ps. toLowerCase (fst p) \<noteq> ''__proto__'' \<and> proto_free (snd p) \<Longrightarrow>
   proto_free (JObj (foldl (copy_own lc) out ps))"
proof (induction ps arbitrary: out)
  case Nil
  then show ?case by simp
next
  case (Cons p ps)
  from Cons.prems(2) have k: "toLowerCase (fold_key lc (fst p)) \<noteq> ''__proto__''"
    and v: "proto_free (snd p)"
    and rest: "\<forall>p \<in> set ps. toLowerCase (fst p) \<noteq> ''__proto__'' \<and> proto_free (snd p)"
    by (simp_all add: fold_key_free)
  from proto_free_update [OF Cons.prems(1) k v]
  have "proto_free (JObj (copy_own lc out p))"
    by (simp add: copy_own_def)
  from Cons.IH [OF this rest] show ?case by simp
qed

lemma for_in_smaller:
  "(i, v) \<in> set (for_in ov) \<Longrightarrow> typeof_object v \<Longrightarrow> size v < size ov"
proof (induction ov rule: for_in.induct)
  case (1 ps)
  then have "(i, v) \<in> set ps" by simp
  then have "size v \<le> size_list (size_prod (\<lambda>x. 0) size) ps" by (induction ps) auto
  then show ?case by simp
next
  case (2 ps p)
  from "2.prems"(1) have "(i, v) \<in> set ps \<or> (i, v) \<in> set (for_in p)" by auto
  then show ?case
  proof
    assume "(i, v) \<in> set ps"
    then have "size v \<le> size_list (size_prod (\<lambda>x. 0) size) ps" by (induction ps) auto
    then show ?thesis by simp
  next
    assume "(i, v) \<in> set (for_in p)"
    from "2.IH" [OF this "2.prems"(2)] show ?thesis by simp
  qed
next
  case (3 xs)
  then have "v \<in> set xs" by (auto dest: set_zip_rightD)
  then have "size v \<le> size_list size xs" by (induction xs) auto
  then show ?case by simp
next
  case (4 s)
  then show ?case by (auto dest!: set_zip_rightD)
qed simp_all

lemma proto_free_merge_loop:
  assumes nested: "\<And>i v x f. (i, v) \<in> set ps \<Longrightarrow> typeof_object v \<Longrightarrow> proto_free x \<Longrightarrow>
             \<exists>r. deepMerge eng x v f = Some r \<and> proto_free r"
    and "proto_free (JObj out)"
    and "\<forall>p \<in> set ps. toLowerCase (fst p) \<noteq> ''__proto__'' \<and> proto_free (snd p)"
  shows "\<exists>res. foldl (merge_own eng lc) (Some out) ps = Some res \<and> proto_free (JObj res)"
  using assms
proof (induction ps arbitrary: out)
  case Nil
  then show ?case by simp
next
  case (Cons p ps)
  define key where "key = fold_key lc (fst p)"
  from Cons.prems(3) have k: "toLowerCase key \<noteq> ''__proto__''" and pv: "proto_free (snd p)"
    by (simp_all add: key_def fold_key_free)
  have "\<exists>mid. merge_own eng lc (Some out) p = Some mid \<and> proto_free (JObj mid)"
  proof (cases "in_plain key out \<and> typeof_object (snd p)")
    case True
    have "(fst p, snd p) \<in> set (p # ps)" by simp
    from Cons.prems(1) [OF this _ proto_free_get_own [OF Cons.prems(2)], of key "key = ''headers''"] True
    obtain r where "deepMerge eng (get_own out key) (snd p) (key = ''headers'') = Some r"
      and "proto_free r" by blast
    with True proto_free_update [OF Cons.prems(2) k] show ?thesis
      by (simp add: merge_own_def Let_def key_def [symmetric])
  next
    case False
    with proto_free_update [OF Cons.prems(2) k pv] show ?thesis
      by (auto simp: merge_own_def Let_def key_def [symmetric])
  qed
  then obtain mid where m: "merge_own eng lc (Some out) p = Some mid" and f: "proto_free (JObj mid)"
    by blast
  have "\<exists>res. foldl (merge_own eng lc) (Some mid) ps = Some res \<and> proto_free (JObj res)"
  proof (rule Cons.IH [OF _ f])
    show "\<forall>p \<in> set ps. toLowerCase (fst p) \<noteq> ''__proto__'' \<and> proto_free (snd p)"
      using Cons.prems(3) by simp
    show "\<exists>r. deepMerge eng x v f = Some r \<and> proto_free r"
      if "(i, v) \<in> set ps" "typeof_object v" "proto_free x" for i v x f
      using Cons.prems(1) [of i v x f] that by simp
  qed
  with m show ?case by simp
qed

lemma proto_free_concat: "proto_free (JArr xs) \<Longrightarrow> proto_free v \<Longrightarrow> proto_free (concat_js xs v)"
  by (cases v) auto

lemma deepMerge_returns:
  "proto_free opts \<Longrightarrow> proto_free overrides \<Longrightarrow>
   \<exists>r. deepMerge eng opts overrides lc = Some r \<and> proto_free r"
proof (induction "size overrides" arbitrary: opts overrides lc rule: less_induct)
  case less
  show ?case
  proof (cases "\<exists>xs. opts = JArr xs")
    case True
    with less.prems proto_free_concat show ?thesis
      by (auto simp: deepMerge_array)
  next
    case False
    from proto_free_for_in [OF less.prems(1)]
    have po: "\<forall>p \<in> set (for_in opts). toLowerCase (fst p) \<noteq> ''__proto__'' \<and> proto_free (snd p)" .
    from proto_free_for_in [OF less.prems(2)]
    have pv: "\<forall>p \<in> set (for_in overrides). toLowerCase (fst p) \<noteq> ''__proto__'' \<and> proto_free (snd p)" .
    have ko: "\<forall>p \<in> set (for_in opts). fold_key lc (fst p) \<noteq> ''__proto__''"
      using po by (simp add: folded_not_proto)
    have kv: "\<forall>p \<in> set (for_in overrides). fold_key lc (fst p) \<noteq> ''__proto__''"
      using pv by (simp add: folded_not_proto)
    have start: "proto_free (JObj (foldl (copy_own lc) [] (for_in opts)))"
      using proto_free_copy [OF _ po, of "[]" lc] by simp
    have "\<exists>res. foldl (merge_own eng lc) (Some (foldl (copy_own lc) [] (for_in opts))) (for_in overrides)
                  = Some res \<and> proto_free (JObj res)"
    proof (rule proto_free_merge_loop [OF _ start pv])
      show "\<exists>r. deepMerge eng x v f = Some r \<and> proto_free r"
        if "(i, v) \<in> set (for_in overrides)" "typeof_object v" "proto_free x" for i v x f
      proof -
        from for_in_smaller [OF that(1,2)] have "size v < size overrides" .
        moreover from pv that(1) have "proto_free v" by auto
        ultimately show ?thesis using less.hyps [of v x f] that(3) by simp
      qed
    qed
    then show ?thesis
      by (auto simp: deepMerge_plain [OF False ko kv])
  qed
qed

section \<open>Config Merger: recursion and replacement\<close>

text \<open>
  Claim C5, as the code has it. An array given for a key that already holds an array is
  appended to it, not put in its place; under the key \<^verbatim>\<open>headers\<close> the nested merge
  folds the case of the names, which the merge of the two header objects taken by
  themselves does not; and a string given under the name \<^verbatim>\<open>__proto__\<close> replaces
  nothing: the assignment runs the setter of \<^verbatim>\<open>Object.prototype\<close>, which ignores a
  primitive, and the result has no such property. Nor does every merge return: where a
  nested object has a property \<^verbatim>\<open>__proto__\<close> that holds a function, the copy of it
  inherits the read-only \<^verbatim>\<open>name\<close> of the function, and the assignment of a
  \<^verbatim>\<open>name\<close> throws.
\<close>

theorem mergeConfig_concatenates_arrays:
  "map_option (\<lambda>merged. get_prop merged ''transformRequest'')
     (mergeConfig example_engine (JObj [(''transformRequest'', JArr [JFn ''f''])])
                                 (JObj [(''transformRequest'', JArr [JFn ''g''])]))
     = Some (JArr [JFn ''f'', JFn ''g''])
   \<and> map_option (\<lambda>merged. get_prop merged ''headers'')
       (mergeConfig example_engine (JObj [(''headers'', JObj [(''X-Foo'', JStr ''1'')])])
                                   (JObj [(''headers'', JObj [(''x-foo'', JStr ''2'')])]))
     = Some (JObj [(''x-foo'', JStr ''2'')])
   \<and> mergeConfig example_engine (JObj [(''X-Foo'', JStr ''1'')]) (JObj [(''x-foo'', JStr ''2'')])
     = Some (JObj [(''X-Foo'', JStr ''1''), (''x-foo'', JStr ''2'')])
   \<and> mergeConfig example_engine (JObj []) (JObj [(''__proto__'', JStr ''x'')]) = Some (JObj [])
   \<and> mergeConfig example_engine (JObj [(''a'', JObj [(''__proto__'', JFn ''f'')])])
                                 (JObj [(''a'', JObj [(''name'', JStr ''t'')])]) = None"
  by code_simp

text \<open>
  Claim C5, amended. For configuration objects \<open>A\<close> and \<open>B\<close> that have no property
  named \<^verbatim>\<open>__proto__\<close>, the merge returns, at the least when no object inside \<open>A\<close>
  or \<open>B\<close> has such a property in whatever letter case; and whenever it returns: at a
  shared key other than \<^verbatim>\<open>headers\<close> whose values are objects in both, the merged
  value is the merge of the two values; an override that is not of type \<^verbatim>\<open>'object'\<close> (a string, number,
  boolean, function or \<^verbatim>\<open>undefined\<close>) replaces the value outright; an override
  is stored as it is when its key is neither a key of \<open>A\<close> nor a member of
  \<^verbatim>\<open>Object.prototype\<close>; and when \<open>A\<close> has the key and the override is of type
  \<^verbatim>\<open>'object'\<close>, the merged value is what \<^verbatim>\<open>deepMerge\<close> makes of the value of
  \<open>A\<close> and the override, folding the names when the key is \<^verbatim>\<open>headers\<close>: the
  value of \<open>A\<close> with the elements of the override appended when both are arrays.
\<close>

theorem mergeConfig_by_key:
  assumes "distinct (map fst a)" and "distinct (map fst b)"
    and "''__proto__'' \<notin> fst ` set a" and "''__proto__'' \<notin> fst ` set b"
  shows "(proto_free (JObj a) \<and> proto_free (JObj b) \<longrightarrow>
            (\<exists>merged. mergeConfig eng (JObj a) (JObj b) = Some merged))
       \<and> (mergeConfig eng (JObj a) (JObj b) = Some merged \<longrightarrow>
           ((k1, JObj x) \<in> set a \<and> (k1, JObj y) \<in> set b \<and> k1 \<noteq> ''headers'' \<longrightarrow>
              mergeConfig eng (JObj x) (JObj y) = Some (get_prop merged k1))
         \<and> ((k2, v) \<in> set b \<and> \<not> typeof_object v \<longrightarrow> get_prop merged k2 = v)
         \<and> ((k3, v3) \<in> set b \<and> k3 \<notin> fst ` set a \<and> k3 \<notin> set object_prototype_names \<longrightarrow>
              get_prop merged k3 = v3)
         \<and> ((k4, w) \<in> set a \<and> (k4, u) \<in> set b \<and> typeof_object u \<longrightarrow>
              deepMerge eng w u (k4 = ''headers'') = Some (get_prop merged k4))
         \<and> ((k5, JArr xs) \<in> set a \<and> (k5, JArr zs') \<in> set b \<longrightarrow>
              get_prop merged k5 = JArr (xs @ zs')))"
proof (rule conjI; rule impI)
  assume "proto_free (JObj a) \<and> proto_free (JObj b)"
  with deepMerge_returns [of "JObj a" "JObj b" eng False]
  show "\<exists>merged. mergeConfig eng (JObj a) (JObj b) = Some merged"
    by (auto simp: mergeConfig_objects)
next
  assume returned: "mergeConfig eng (JObj a) (JObj b) = Some merged"
  have da: "distinct (map (\<lambda>q. fold_key False (fst q)) a)"
    and db: "distinct (map (\<lambda>q. fold_key False (fst q)) b)"
    using assms(1,2) by simp_all
  have pa: "\<forall>p \<in> set a. fold_key False (fst p) \<noteq> ''__proto__''"
    using assms(3) by (rule absent_name)
  have pb: "\<forall>p \<in> set b. fold_key False (fst p) \<noteq> ''__proto__''"
    using assms(4) by (rule absent_name)
  from returned have m: "deepMerge eng (JObj a) (JObj b) False = Some merged"
    by (simp add: mergeConfig_objects)
  have at: "(if in_plain j (foldl (copy_own False) [] a) \<and> typeof_object u
            then deepMerge eng (get_own (foldl (copy_own False) [] a) j) u (j = ''headers'')
            else Some u) = Some (get_prop merged j)" if "(j, u) \<in> set b" for j u
    using merged_at [OF m pa pb db that, unfolded fold_key_False] .
  have old: "get_own (foldl (copy_own False) [] a) i = u \<and> in_plain i (foldl (copy_own False) [] a)"
    if "(i, u) \<in> set a" for i u
    using copied_at [OF da that] by simp
  have 1: "mergeConfig eng (JObj x) (JObj y) = Some (get_prop merged k1)"
    if "(k1, JObj x) \<in> set a" "(k1, JObj y) \<in> set b" "k1 \<noteq> ''headers''"
    using at [OF that(2)] old [OF that(1)] that(3) by (simp add: mergeConfig_objects)
  have 2: "get_prop merged k2 = v"
    if "(k2, v) \<in> set b" "\<not> typeof_object v"
    using at [OF that(1)] that(2) by simp
  have 3: "get_prop merged k3 = v3"
    if "(k3, v3) \<in> set b" "k3 \<notin> fst ` set a" "k3 \<notin> set object_prototype_names"
  proof -
    from that(1) assms(4) have "k3 \<noteq> ''__proto__''"
      by (metis fst_conv image_eqI)
    from not_copied [OF that(2) this that(3)] at [OF that(1)] show ?thesis by simp
  qed
  have 4: "deepMerge eng w u (k4 = ''headers'') = Some (get_prop merged k4)"
    if "(k4, w) \<in> set a" "(k4, u) \<in> set b" "typeof_object u"
    using at [OF that(2)] old [OF that(1)] that(3) by simp
  have 5: "get_prop merged k5 = JArr (xs @ zs')"
    if "(k5, JArr xs) \<in> set a" "(k5, JArr zs') \<in> set b"
    using at [OF that(2)] old [OF that(1)] by (simp add: deepMerge_array)
  from 1 2 3 4 5
  show "((k1, JObj x) \<in> set a \<and> (k1, JObj y) \<in> set b \<and> k1 \<noteq> ''headers'' \<longrightarrow>
              mergeConfig eng (JObj x) (JObj y) = Some (get_prop merged k1))
         \<and> ((k2, v) \<in> set b \<and> \<not> typeof_object v \<longrightarrow> get_prop merged k2 = v)
         \<and> ((k3, v3) \<in> set b \<and> k3 \<notin> fst ` set a \<and> k3 \<notin> set object_prototype_names \<longrightarrow>
              get_prop merged k3 = v3)
         \<and> ((k4, w) \<in> set a \<and> (k4, u) \<in> set b \<and> typeof_object u \<longrightarrow>
              deepMerge eng w u (k4 = ''headers'') = Some (get_prop merged k4))
         \<and> ((k5, JArr xs) \<in> set a \<and> (k5, JArr zs') \<in> set b \<longrightarrow>
              get_prop merged k5 = JArr (xs @ zs'))"
    by blast
qed

theorem mergeConfig_by_key_witness:
  "distinct (map fst [(''params'', JObj [(''a'', JNum 1)]), (''transformRequest'', JArr [JFn ''f'']),
                      (''timeout'', JNum 1), (''retry'', JNum 3)])
   \<and> distinct (map fst [(''params'', JObj [(''b'', JNum 2)]), (''transformRequest'', JArr [JFn ''g'']),
                        (''timeout'', JNum 5), (''tags'', JArr [JStr ''t'']),
                        (''retry'', JArr [JStr ''r''])])
   \<and> proto_free (JObj [(''params'', JObj [(''a'', JNum 1)]), (''transformRequest'', JArr [JFn ''f'']),
                      (''timeout'', JNum 1), (''retry'', JNum 3)])
   \<and> proto_free (JObj [(''params'', JObj [(''b'', JNum 2)]), (''transformRequest'', JArr [JFn ''g'']),
                        (''timeout'', JNum 5), (''tags'', JArr [JStr ''t'']),
                        (''retry'', JArr [JStr ''r''])])
   \<and> mergeConfig example_engine
        (JObj [(''params'', JObj [(''a'', JNum 1)]), (''transformRequest'', JArr [JFn ''f'']),
               (''timeout'', JNum 1), (''retry'', JNum 3)])
        (JObj [(''params'', JObj [(''b'', JNum 2)]), (''transformRequest'', JArr [JFn ''g'']),
               (''timeout'', JNum 5), (''tags'', JArr [JStr ''t'']), (''retry'', JArr [JStr ''r''])])
       = Some (JObj [(''params'', JObj [(''a'', JNum 1), (''b'', JNum 2)]),
                     (''transformRequest'', JArr [JFn ''f'', JFn ''g'']),
                     (''timeout'', JNum 5), (''retry'', JObj [(''0'', JStr ''r'')]),
                     (''tags'', JArr [JStr ''t''])])
   \<and> mergeConfig example_engine (JObj [(''a'', JNum 1)]) (JObj [(''b'', JNum 2)])
       = Some (JObj [(''a'', JNum 1), (''b'', JNum 2)])
   \<and> deepMerge example_engine (JNum 3) (JArr [JStr ''r'']) False = Some (JObj [(''0'', JStr ''r'')])"
proof -
  have m: "mergeConfig example_engine
        (JObj [(''params'', JObj [(''a'', JNum 1)]), (''transformRequest'', JArr [JFn ''f'']),
               (''timeout'', JNum 1), (''retry'', JNum 3)])
        (JObj [(''params'', JObj [(''b'', JNum 2)]), (''transformRequest'', JArr [JFn ''g'']),
               (''timeout'', JNum 5), (''tags'', JArr [JStr ''t'']), (''retry'', JArr [JStr ''r''])])
       = Some (JObj [(''params'', JObj [(''a'', JNum 1), (''b'', JNum 2)]),
                     (''transformRequest'', JArr [JFn ''f'', JFn ''g'']),
                     (''timeout'', JNum 5), (''retry'', JObj [(''0'', JStr ''r'')]),
                     (''tags'', JArr [JStr ''t''])])"
    by code_simp
  have da: "distinct (map fst [(''params'', JObj [(''a'', JNum 1)]), (''transformRequest'', JArr [JFn ''f'']),
                      (''timeout'', JNum 1), (''retry'', JNum 3)])"
    and db: "distinct (map fst [(''params'', JObj [(''b'', JNum 2)]), (''transformRequest'', JArr [JFn ''g'']),
                        (''timeout'', JNum 5), (''tags'', JArr [JStr ''t'']),
                        (''retry'', JArr [JStr ''r''])])"
    and pa: "''__proto__'' \<notin> fst ` set [(''params'', JObj [(''a'', JNum 1)]),
                      (''transformRequest'', JArr [JFn ''f'']), (''timeout'', JNum 1), (''retry'', JNum 3)]"
    and pb: "''__proto__'' \<notin> fst ` set [(''params'', JObj [(''b'', JNum 2)]),
                      (''transformRequest'', JArr [JFn ''g'']), (''timeout'', JNum 5),
                      (''tags'', JArr [JStr ''t'']), (''retry'', JArr [JStr ''r''])]"
    by simp_all
  have fa: "proto_free (JObj [(''params'', JObj [(''a'', JNum 1)]), (''transformRequest'', JArr [JFn ''f'']),
                      (''timeout'', JNum 1), (''retry'', JNum 3)])"
    and fb: "proto_free (JObj [(''params'', JObj [(''b'', JNum 2)]), (''transformRequest'', JArr [JFn ''g'']),
                        (''timeout'', JNum 5), (''tags'', JArr [JStr ''t'']),
                        (''retry'', JArr [JStr ''r''])])"
    by code_simp+
  note inst = mergeConfig_by_key [OF da db pa pb,
      of example_engine
         "JObj [(''params'', JObj [(''a'', JNum 1), (''b'', JNum 2)]),
                (''transformRequest'', JArr [JFn ''f'', JFn ''g'']),
                (''timeout'', JNum 5), (''retry'', JObj [(''0'', JStr ''r'')]),
                (''tags'', JArr [JStr ''t''])]"
         "''params''" "[(''a'', JNum 1)]" "[(''b'', JNum 2)]" "''timeout''" "JNum 5"
         "''tags''" "JArr [JStr ''t'']" "''retry''" "JNum 3" "JArr [JStr ''r'']"
         "''transformRequest''" "[JFn ''f'']" "[JFn ''g'']", unfolded m]
  from inst have 1: "mergeConfig example_engine (JObj [(''a'', JNum 1)]) (JObj [(''b'', JNum 2)])
       = Some (JObj [(''a'', JNum 1), (''b'', JNum 2)])"
    by (simp add: get_own_def)
  from inst have 4: "deepMerge example_engine (JNum 3) (JArr [JStr ''r'']) False
       = Some (JObj [(''0'', JStr ''r'')])"
    by (simp add: get_own_def)
  from da db fa fb m 1 4 show ?thesis by simp
qed

section \<open>Config Merger: case folding\<close>

text \<open>
  Claim C6, as the code has it. A merge called with folding hands \<^verbatim>\<open>false\<close> down
  to the merge of a shared key other than \<^verbatim>\<open>headers\<close>: the nested names \<^verbatim>\<open>X\<close>
  and \<^verbatim>\<open>x\<close> both survive. A header whose override is \<^verbatim>\<open>null\<close> does not hold the
  override's value but the object made of the characters of the base value. A header
  whose name folds to \<^verbatim>\<open>__proto__\<close> is not in the result at all. And where the base
  headers have a property \<^verbatim>\<open>__proto__\<close> that holds a function, the merge throws at
  the header \<^verbatim>\<open>Name\<close>, whose folded name the result inherits read-only.
\<close>

theorem caller_fold_not_passed_down:
  "deepMerge example_engine (JObj [(''a'', JObj [(''X'', JNum 1)])])
       (JObj [(''a'', JObj [(''x'', JNum 2)])]) True
     = Some (JObj [(''a'', JObj [(''X'', JNum 1), (''x'', JNum 2)])])
   \<and> deepMerge example_engine (JObj [(''X-Foo'', JStr ''1'')]) (JObj [(''x-foo'', JNull)]) True
     = Some (JObj [(''x-foo'', JObj [(''0'', JStr ''1'')])])
   \<and> deepMerge example_engine (JObj []) (JObj [(''__PROTO__'', JStr ''x'')]) True = Some (JObj [])
   \<and> deepMerge example_engine (JObj [(''headers'', JObj [(''__proto__'', JFn ''f'')])])
                               (JObj [(''headers'', JObj [(''Name'', JStr ''t'')])]) False = None"
  by code_simp

text \<open>
  Claim C6, amended. In a merge of two objects none of whose names folds to
  \<^verbatim>\<open>__proto__\<close> and no two of whose names, within one object, fold to the same
  key: when it returns, the merge of a shared key whose override is of type
  \<^verbatim>\<open>'object'\<close> is called with folding exactly when the key is \<^verbatim>\<open>headers\<close>,
  whatever the caller's own flag is; and it returns at the least when no object inside
  the two has a property named \<^verbatim>\<open>__proto__\<close> in whatever letter case. And header
  maps whose overrides are not of type \<^verbatim>\<open>'object'\<close> and none of whose names is
  \<^verbatim>\<open>__proto__\<close> in any case merge without regard to case: the merge returns, the
  result has one property for each lower-cased name, and its value is the one written
  last under that name, the overrides being written after the base.
\<close>

theorem headers_force_folding:
  "(distinct (map (\<lambda>q. fold_key lc (fst q)) a) \<and> distinct (map (\<lambda>q. fold_key lc (fst q)) b)
      \<and> (\<forall>p \<in> set (a @ b). fold_key lc (fst p) \<noteq> ''__proto__'')
      \<and> (i, x) \<in> set a \<and> (j, v) \<in> set b \<and> fold_key lc i = fold_key lc j \<and> typeof_object v
      \<and> deepMerge eng (JObj a) (JObj b) lc = Some merged
    \<longrightarrow> deepMerge eng x v (fold_key lc j = ''headers'') = Some (get_prop merged (fold_key lc j)))
   \<and> (proto_free (JObj a) \<and> proto_free (JObj b)
    \<longrightarrow> (\<exists>merged. deepMerge eng (JObj a) (JObj b) lc = Some merged))
   \<and> ((\<forall>p \<in> set h2. \<not> typeof_object (snd p))
      \<and> (\<forall>p \<in> set (h1 @ h2). toLowerCase (fst p) \<noteq> ''__proto__'')
    \<longrightarrow> (\<exists>out. deepMerge eng (JObj h1) (JObj h2) True = Some (JObj out)
              \<and> distinct (map fst out)
              \<and> fst ` set out = toLowerCase ` fst ` set (h1 @ h2)
              \<and> map_of out = map_of (rev (map (\<lambda>q. (toLowerCase (fst q), snd q)) (h1 @ h2)))))"
proof (intro conjI impI)
  assume h: "distinct (map (\<lambda>q. fold_key lc (fst q)) a) \<and> distinct (map (\<lambda>q. fold_key lc (fst q)) b)
      \<and> (\<forall>p \<in> set (a @ b). fold_key lc (fst p) \<noteq> ''__proto__'')
      \<and> (i, x) \<in> set a \<and> (j, v) \<in> set b \<and> fold_key lc i = fold_key lc j \<and> typeof_object v
      \<and> deepMerge eng (JObj a) (JObj b) lc = Some merged"
  then have da: "distinct (map (\<lambda>q. fold_key lc (fst q)) a)"
    and db: "distinct (map (\<lambda>q. fold_key lc (fst q)) b)"
    and pa: "\<forall>p \<in> set a. fold_key lc (fst p) \<noteq> ''__proto__''"
    and pb: "\<forall>p \<in> set b. fold_key lc (fst p) \<noteq> ''__proto__''"
    and ia: "(i, x) \<in> set a" and jb: "(j, v) \<in> set b"
    and eq: "fold_key lc i = fold_key lc j" and obj: "typeof_object v"
    and m: "deepMerge eng (JObj a) (JObj b) lc = Some merged"
    by simp_all
  from copied_at [OF da ia] eq
  have "get_own (foldl (copy_own lc) [] a) (fold_key lc j) = x"
    and "in_plain (fold_key lc j) (foldl (copy_own lc) [] a)"
    by simp_all
  with merged_at [OF m pa pb db jb] obj
  show "deepMerge eng x v (fold_key lc j = ''headers'') = Some (get_prop merged (fold_key lc j))"
    by simp
next
  assume "proto_free (JObj a) \<and> proto_free (JObj b)"
  with deepMerge_returns [of "JObj a" "JObj b" eng lc]
  show "\<exists>merged. deepMerge eng (JObj a) (JObj b) lc = Some merged"
    by auto
next
  assume "(\<forall>p \<in> set h2. \<not> typeof_object (snd p))
      \<and> (\<forall>p \<in> set (h1 @ h2). toLowerCase (fst p) \<noteq> ''__proto__'')"
  then have sc: "\<forall>p \<in> set h2. \<not> typeof_object (snd p)"
    and p1: "\<forall>p \<in> set (for_in (JObj h1)). fold_key True (fst p) \<noteq> ''__proto__''"
    and p2: "\<forall>p \<in> set (for_in (JObj h2)). fold_key True (fst p) \<noteq> ''__proto__''"
    by (simp_all add: fold_key_def)
  define out where "out = foldl (copy_own True) (foldl (copy_own True) [] h1) h2"
  have m: "deepMerge eng (JObj h1) (JObj h2) True = Some (JObj out)"
    using deepMerge_plain [OF _ p1 p2, of eng]
    by (simp add: merge_loop_scalars [OF sc] out_def)
  have d: "distinct (map fst out)"
    by (simp add: out_def copy_loop_distinct)
  have k: "fst ` set out = toLowerCase ` fst ` set (h1 @ h2)"
    by (auto simp: out_def copy_loop_keys fold_key_def image_Un)
  have "map_of out = map_of (rev (map (\<lambda>q. (toLowerCase (fst q), snd q)) (h1 @ h2)))"
    by (simp add: out_def copy_loop_map fold_key_def)
  with m d k
  show "\<exists>out. deepMerge eng (JObj h1) (JObj h2) True = Some (JObj out)
              \<and> distinct (map fst out)
              \<and> fst ` set out = toLowerCase ` fst ` set (h1 @ h2)
              \<and> map_of out = map_of (rev (map (\<lambda>q. (toLowerCase (fst q), snd q)) (h1 @ h2)))"
    by blast
qed

theorem headers_force_folding_witness:
  "distinct (map (\<lambda>q. fold_key False (fst q)) [(''headers'', JObj [(''X-Foo'', JStr ''1'')])])
   \<and> distinct (map (\<lambda>q. fold_key False (fst q)) [(''headers'', JObj [(''x-foo'', JStr ''2'')])])
   \<and> fold_key False ''headers'' \<noteq> ''__proto__''
   \<and> toLowerCase ''X-Foo'' \<noteq> ''__proto__'' \<and> toLowerCase ''x-foo'' \<noteq> ''__proto__''
   \<and> typeof_object (JObj [(''x-foo'', JStr ''2'')])
   \<and> \<not> typeof_object (JStr ''2'')
   \<and> proto_free (JObj [(''headers'', JObj [(''X-Foo'', JStr ''1'')])])
   \<and> proto_free (JObj [(''headers'', JObj [(''x-foo'', JStr ''2'')])])
   \<and> deepMerge example_engine (JObj [(''headers'', JObj [(''X-Foo'', JStr ''1'')])])
                          (JObj [(''headers'', JObj [(''x-foo'', JStr ''2'')])]) False
       = Some (JObj [(''headers'', JObj [(''x-foo'', JStr ''2'')])])
   \<and> deepMerge example_engine (JObj [(''X-Foo'', JStr ''1'')]) (JObj [(''x-foo'', JStr ''2'')]) True
       = Some (JObj [(''x-foo'', JStr ''2'')])
   \<and> (\<exists>out. deepMerge example_engine (JObj [(''X-Foo'', JStr ''1'')]) (JObj [(''x-foo'', JStr ''2'')]) True
            = Some (JObj out)
          \<and> distinct (map fst out)
          \<and> fst ` set out = {''x-foo''}
          \<and> map_of out ''x-foo'' = Some (JStr ''2''))"
proof -
  have low: "toLowerCase ''X-Foo'' = ''x-foo''" "toLowerCase ''x-foo'' = ''x-foo''"
    by (simp_all add: toLowerCase_def lower_char_def)
  have m: "deepMerge example_engine (JObj [(''headers'', JObj [(''X-Foo'', JStr ''1'')])])
                          (JObj [(''headers'', JObj [(''x-foo'', JStr ''2'')])]) False
       = Some (JObj [(''headers'', JObj [(''x-foo'', JStr ''2'')])])"
    by code_simp
  have h1: "distinct (map (\<lambda>q. fold_key False (fst q)) [(''headers'', JObj [(''X-Foo'', JStr ''1'')])])
   \<and> distinct (map (\<lambda>q. fold_key False (fst q)) [(''headers'', JObj [(''x-foo'', JStr ''2'')])])
   \<and> (\<forall>p \<in> set ([(''headers'', JObj [(''X-Foo'', JStr ''1'')])]
                  @ [(''headers'', JObj [(''x-foo'', JStr ''2'')])]).
         fold_key False (fst p) \<noteq> ''__proto__'')
   \<and> (''headers'', JObj [(''X-Foo'', JStr ''1'')]) \<in> set [(''headers'', JObj [(''X-Foo'', JStr ''1'')])]
   \<and> (''headers'', JObj [(''x-foo'', JStr ''2'')]) \<in> set [(''headers'', JObj [(''x-foo'', JStr ''2'')])]
   \<and> fold_key False ''headers'' = fold_key False ''headers''
   \<and> typeof_object (JObj [(''x-foo'', JStr ''2'')])"
    by simp
  have h2: "(\<forall>p \<in> set [(''x-foo'', JStr ''2'')]. \<not> typeof_object (snd p))
      \<and> (\<forall>p \<in> set ([(''X-Foo'', JStr ''1'')] @ [(''x-foo'', JStr ''2'')]).
            toLowerCase (fst p) \<noteq> ''__proto__'')"
    by (simp add: low)
  note inst = headers_force_folding
    [of False "[(''headers'', JObj [(''X-Foo'', JStr ''1'')])]"
        "[(''headers'', JObj [(''x-foo'', JStr ''2'')])]"
        "''headers''" "JObj [(''X-Foo'', JStr ''1'')]" "''headers''" "JObj [(''x-foo'', JStr ''2'')]"
        example_engine "JObj [(''headers'', JObj [(''x-foo'', JStr ''2'')])]"
        "[(''x-foo'', JStr ''2'')]" "[(''X-Foo'', JStr ''1'')]"]
  from inst h1 m
  have a: "deepMerge example_engine (JObj [(''X-Foo'', JStr ''1'')]) (JObj [(''x-foo'', JStr ''2'')]) True
       = Some (JObj [(''x-foo'', JStr ''2'')])"
    by (simp add: get_own_def)
  from inst h2 obtain out where
    o: "deepMerge example_engine (JObj [(''X-Foo'', JStr ''1'')]) (JObj [(''x-foo'', JStr ''2'')]) True
          = Some (JObj out)"
      "distinct (map fst out)"
      "fst ` set out = toLowerCase ` fst ` set ([(''X-Foo'', JStr ''1'')] @ [(''x-foo'', JStr ''2'')])"
      "map_of out = map_of (rev (map (\<lambda>q. (toLowerCase (fst q), snd q))
                      ([(''X-Foo'', JStr ''1'')] @ [(''x-foo'', JStr ''2'')])))"
    by blast
  from o(3) have k: "fst ` set out = {''x-foo''}" by (simp add: low)
  from o(4) have mo: "map_of out ''x-foo'' = Some (JStr ''2'')" by (simp add: low)
  have e: "\<exists>out. deepMerge example_engine (JObj [(''X-Foo'', JStr ''1'')]) (JObj [(''x-foo'', JStr ''2'')]) True
            = Some (JObj out)
          \<and> distinct (map fst out)
          \<and> fst ` set out = {''x-foo''}
          \<and> map_of out ''x-foo'' = Some (JStr ''2'')"
    using o(1,2) k mo by blast
  from h1 have f: "fold_key False ''headers'' \<noteq> ''__proto__''" by simp
  have pf: "proto_free (JObj [(''headers'', JObj [(''X-Foo'', JStr ''1'')])])"
    "proto_free (JObj [(''headers'', JObj [(''x-foo'', JStr ''2'')])])"
    by code_simp+
  from h1 h2 f pf m a e show ?thesis by (simp add: low)
qed

section \<open>Config Merger: a \<^verbatim>\<open>null\<close> override\<close>

text \<open>
  Claim C10, as the code has it. The value left at the key is not always a copy of the
  existing one, nor the empty object for every scalar: an existing array gets
  \<^verbatim>\<open>null\<close> appended, and an existing string becomes the object of its characters.
  And under the name \<^verbatim>\<open>__proto__\<close> the result does map the key to \<^verbatim>\<open>null\<close>: the
  copy of the base makes \<^verbatim>\<open>null\<close> the prototype of the result, after which the name
  is no longer in the result and the override is stored as it is. Nor does every such
  merge return: where the existing value has a property \<^verbatim>\<open>__proto__\<close> that holds a
  function, and a property \<^verbatim>\<open>name\<close>, the copy of it throws.
\<close>

theorem null_override_is_not_a_copy:
  "map_option (\<lambda>merged. get_prop merged ''a'')
     (mergeConfig example_engine (JObj [(''a'', JArr [JNum 1])]) (JObj [(''a'', JNull)]))
     = Some (JArr [JNum 1, JNull])
   \<and> map_option (\<lambda>merged. get_prop merged ''a'')
       (mergeConfig example_engine (JObj [(''a'', JStr ''xy'')]) (JObj [(''a'', JNull)]))
     = Some (JObj [(''0'', JStr ''x''), (''1'', JStr ''y'')])
   \<and> map_option (\<lambda>merged. get_prop merged ''__proto__'')
       (mergeConfig example_engine (JObj [(''__proto__'', JNull)]) (JObj [(''__proto__'', JNull)]))
     = Some JNull
   \<and> mergeConfig example_engine
       (JObj [(''a'', JObj [(''__proto__'', JFn ''f''), (''name'', JStr ''t'')])])
       (JObj [(''a'', JNull)]) = None"
  by code_simp

text \<open>
  Claim C10, amended. For objects that have no property named \<^verbatim>\<open>__proto__\<close>, the
  merge returns, at the least when no object inside them has such a property in whatever
  letter case; and whenever it returns: when the overrides map to \<^verbatim>\<open>null\<close> a key that
  the base has, the merged value at the key is never \<^verbatim>\<open>null\<close>; it is what \<^verbatim>\<open>deepMerge\<close>
  makes of the existing value and \<^verbatim>\<open>null\<close>. That is the existing array with
  \<^verbatim>\<open>null\<close> appended when the existing value is an array; a copy of the existing
  value when that is an object without a property named \<^verbatim>\<open>__proto__\<close> and the key
  is not \<^verbatim>\<open>headers\<close>; and the empty object when the existing value has no enumerable
  property, as numbers, booleans, functions, \<^verbatim>\<open>null\<close>, \<^verbatim>\<open>undefined\<close> and the
  empty string have none.
\<close>

theorem null_override_never_null:
  assumes "distinct (map fst a)" and "distinct (map fst b)"
    and "''__proto__'' \<notin> fst ` set a" and "''__proto__'' \<notin> fst ` set b"
    and "(k, x) \<in> set a" and "(k, JNull) \<in> set b"
  shows "(proto_free (JObj a) \<and> proto_free (JObj b) \<longrightarrow>
            (\<exists>merged. mergeConfig eng (JObj a) (JObj b) = Some merged))
       \<and> (mergeConfig eng (JObj a) (JObj b) = Some merged \<longrightarrow>
             get_prop merged k \<noteq> JNull
           \<and> deepMerge eng x JNull (k = ''headers'') = Some (get_prop merged k)
           \<and> (x = JArr xs \<longrightarrow> get_prop merged k = JArr (xs @ [JNull]))
           \<and> (x = JObj ps \<and> distinct (map fst ps) \<and> ''__proto__'' \<notin> fst ` set ps
                \<and> k \<noteq> ''headers'' \<longrightarrow> get_prop merged k = JObj ps)
           \<and> (for_in x = [] \<and> (\<forall>xs. x \<noteq> JArr xs) \<longrightarrow> get_prop merged k = JObj []))"
proof (rule conjI; rule impI)
  assume "proto_free (JObj a) \<and> proto_free (JObj b)"
  with deepMerge_returns [of "JObj a" "JObj b" eng False]
  show "\<exists>merged. mergeConfig eng (JObj a) (JObj b) = Some merged"
    by (auto simp: mergeConfig_objects)
next
  assume returned: "mergeConfig eng (JObj a) (JObj b) = Some merged"
  have da: "distinct (map (\<lambda>q. fold_key False (fst q)) a)"
    and db: "distinct (map (\<lambda>q. fold_key False (fst q)) b)"
    using assms(1,2) by simp_all
  have pa: "\<forall>p \<in> set a. fold_key False (fst p) \<noteq> ''__proto__''"
    using assms(3) by (rule absent_name)
  have pb: "\<forall>p \<in> set b. fold_key False (fst p) \<noteq> ''__proto__''"
    using assms(4) by (rule absent_name)
  from returned have m: "deepMerge eng (JObj a) (JObj b) False = Some merged"
    by (simp add: mergeConfig_objects)
  from copied_at [OF da assms(5)]
  have "get_own (foldl (copy_own False) [] a) k = x" and "in_plain k (foldl (copy_own False) [] a)"
    by simp_all
  with merged_at [OF m pa pb db assms(6), unfolded fold_key_False]
  have g: "deepMerge eng x JNull (k = ''headers'') = Some (get_prop merged k)"
    by simp
  from deepMerge_not_null [OF g] have n: "get_prop merged k \<noteq> JNull" .
  have r: "get_prop merged k = JArr (xs @ [JNull])" if "x = JArr xs"
    using g that by (simp add: deepMerge_array)
  have c: "get_prop merged k = JObj ps"
    if "x = JObj ps" "distinct (map fst ps)" "''__proto__'' \<notin> fst ` set ps" "k \<noteq> ''headers''"
  proof -
    from that(3) have "\<forall>p \<in> set (for_in (JObj ps)). fold_key False (fst p) \<noteq> ''__proto__''"
      using absent_name [of "''__proto__''" ps] by simp
    from deepMerge_plain [OF _ this, of JNull eng]
    have "deepMerge eng (JObj ps) JNull False = Some (JObj (foldl (copy_own False) [] ps))"
      by simp
    with copy_loop_id [of "[]" ps] that(2) g that(1,4) show ?thesis by simp
  qed
  have e: "get_prop merged k = JObj []" if "for_in x = []" "\<forall>xs. x \<noteq> JArr xs"
  proof -
    from that(2) have "\<not> (\<exists>xs. x = JArr xs)" by simp
    from deepMerge_object [OF this, of eng JNull "k = ''headers''"] that(1)
    have "deepMerge eng x JNull (k = ''headers'') = Some (JObj [])"
      by (simp add: empty_object_def object_value_def)
    with g show ?thesis by simp
  qed
  from g n r c e
  show "get_prop merged k \<noteq> JNull
           \<and> deepMerge eng x JNull (k = ''headers'') = Some (get_prop merged k)
           \<and> (x = JArr xs \<longrightarrow> get_prop merged k = JArr (xs @ [JNull]))
           \<and> (x = JObj ps \<and> distinct (map fst ps) \<and> ''__proto__'' \<notin> fst ` set ps
                \<and> k \<noteq> ''headers'' \<longrightarrow> get_prop merged k = JObj ps)
           \<and> (for_in x = [] \<and> (\<forall>xs. x \<noteq> JArr xs) \<longrightarrow> get_prop merged k = JObj [])"
    by blast
qed

theorem null_override_never_null_witness:
  "distinct (map fst [(''timeout'', JNum 5), (''params'', JObj [(''a'', JNum 1)])])
   \<and> distinct (map fst [(''params'', JNull), (''timeout'', JNull)])
   \<and> proto_free (JObj [(''timeout'', JNum 5), (''params'', JObj [(''a'', JNum 1)])])
   \<and> proto_free (JObj [(''params'', JNull), (''timeout'', JNull)])
   \<and> mergeConfig example_engine (JObj [(''timeout'', JNum 5), (''params'', JObj [(''a'', JNum 1)])])
                                 (JObj [(''params'', JNull), (''timeout'', JNull)])
       = Some (JObj [(''timeout'', JObj []), (''params'', JObj [(''a'', JNum 1)])])
   \<and> JObj [(''a'', JNum 1)] \<noteq> JNull
   \<and> for_in (JNum 5) = []
   \<and> deepMerge example_engine (JObj [(''a'', JNum 1)]) JNull False = Some (JObj [(''a'', JNum 1)])
   \<and> deepMerge example_engine (JNum 5) JNull False = Some (JObj [])"
proof -
  have m: "mergeConfig example_engine (JObj [(''timeout'', JNum 5), (''params'', JObj [(''a'', JNum 1)])])
                                 (JObj [(''params'', JNull), (''timeout'', JNull)])
       = Some (JObj [(''timeout'', JObj []), (''params'', JObj [(''a'', JNum 1)])])"
    by code_simp
  have da: "distinct (map fst [(''timeout'', JNum 5), (''params'', JObj [(''a'', JNum 1)])])"
    and db: "distinct (map fst [(''params'', JNull), (''timeout'', JNull)])"
    and pa: "''__proto__'' \<notin> fst ` set [(''timeout'', JNum 5), (''params'', JObj [(''a'', JNum 1)])]"
    and pb: "''__proto__'' \<notin> fst ` set [(''params'', JNull), (''timeout'', JNull)]"
    by simp_all
  have fa: "proto_free (JObj [(''timeout'', JNum 5), (''params'', JObj [(''a'', JNum 1)])])"
    and fb: "proto_free (JObj [(''params'', JNull), (''timeout'', JNull)])"
    by code_simp+
  from null_override_never_null [OF da db pa pb,
      of "''params''" "JObj [(''a'', JNum 1)]" example_engine
         "JObj [(''timeout'', JObj []), (''params'', JObj [(''a'', JNum 1)])]", unfolded m]
  have 1: "deepMerge example_engine (JObj [(''a'', JNum 1)]) JNull False = Some (JObj [(''a'', JNum 1)])"
    by (simp add: get_own_def)
  from null_override_never_null [OF da db pa pb,
      of "''timeout''" "JNum 5" example_engine
         "JObj [(''timeout'', JObj []), (''params'', JObj [(''a'', JNum 1)])]", unfolded m]
  have 2: "deepMerge example_engine (JNum 5) JNull False = Some (JObj [])"
    by (simp add: get_own_def)
  from da db fa fb m 1 2 show ?thesis by simp
qed

section \<open>Cancellation\<close>

lemma settle_rejected:
  "redaxios_settle env options config (Rejected error) = redaxios_catch error"
  by (simp add: redaxios_settle_def)

text \<open>
  Claim C3. When the transport rejects with a value recognisable as an abort, that is a
  truthy value whose \<^verbatim>\<open>name\<close> is \<^verbatim>\<open>'AbortError'\<close> or whose \<^verbatim>\<open>code\<close> is
  \<^verbatim>\<open>'ERR_CANCELED'\<close>, the call rejects with the canonical cancellation error: its name
  is \<^verbatim>\<open>'AbortError'\<close> and its message \<^verbatim>\<open>'canceled'\<close> whatever the message of the
  original error was, it has no \<^verbatim>\<open>response\<close> property, and \<^verbatim>\<open>isCancel\<close> is true
  of it.
\<close>

theorem abort_rejects_canonical:
  assumes "truthy error"
    and "get_prop error ''name'' = JStr ''AbortError'' \<or> get_prop error ''code'' = JStr ''ERR_CANCELED''"
  shows "redaxios_settle env options config (Rejected error) = Rejected cancelError
       \<and> get_prop cancelError ''name'' = JStr ''AbortError''
       \<and> get_prop cancelError ''message'' = JStr ''canceled''
       \<and> \<not> has_own ''response'' (for_in cancelError)
       \<and> isCancel cancelError = JBool True"
proof -
  from assms have "truthy (is_abort error)"
    by (auto simp: is_abort_def js_or_def js_and_def strict_eq_str_def)
  then have "redaxios_settle env options config (Rejected error) = Rejected cancelError"
    by (simp add: settle_rejected redaxios_catch_def)
  moreover have "get_prop cancelError ''name'' = JStr ''AbortError''"
    by (simp add: cancelError_def get_own_def)
  moreover have "get_prop cancelError ''message'' = JStr ''canceled''"
    by (simp add: cancelError_def get_own_def)
  moreover have "\<not> has_own ''response'' (for_in cancelError)"
    by (simp add: cancelError_def has_own_def)
  moreover have "isCancel cancelError = JBool True"
    by (simp add: isCancel_def cancelError_def get_own_def js_or_def js_and_def strict_eq_str_def)
  ultimately show ?thesis by simp
qed

theorem abort_rejects_canonical_witness:
  "truthy (JObj [(''name'', JStr ''AbortError''), (''message'', JStr ''The user aborted a request.'')])
   \<and> get_prop (JObj [(''name'', JStr ''AbortError''), (''message'', JStr ''The user aborted a request.'')])
         ''name'' = JStr ''AbortError''
   \<and> redaxios_settle example_platform (JObj []) (JObj [])
        (Rejected (JObj [(''name'', JStr ''AbortError''),
                         (''message'', JStr ''The user aborted a request.'')]))
       = Rejected cancelError
   \<and> isCancel cancelError = JBool True"
  using abort_rejects_canonical
    [of "JObj [(''name'', JStr ''AbortError''), (''message'', JStr ''The user aborted a request.'')]"
        example_platform "JObj []" "JObj []"]
  by (simp add: get_own_def)

section \<open>Classification of the response\<close>






section \<open>Dispatch\<close>

text \<open>
  Claim C1, as the code has it. \<^verbatim>\<open>axios.get('/foo', { data: 'x' })\<close> calls the
  transport with options whose \<^verbatim>\<open>body\<close> is \<^verbatim>\<open>'x'\<close>: the options are built with
  \<^verbatim>\<open>body: data\<close> whatever the method is.
\<close>

theorem get_request_carries_body:
  "redaxios_dispatch example_platform (JObj []) (JStr ''/foo'') (JObj [(''data'', JStr ''x'')])
     (JStr ''get'') JUndefined
   = Inr (Fetch_url ''/foo''
            \<lparr> fo_method = ''GET'', fo_body = JStr ''x'', fo_headers = JObj [],
              fo_credentials = JUndefined, fo_signal = JUndefined \<rparr>,
          JObj [(''data'', JStr ''x'')], JObj [(''data'', JStr ''x'')])"
  by code_simp

text \<open>
  Claim C1, amended. Whenever the transport is reached, the body handed to it is the
  encoded data, for every method, GET and HEAD included. What the test on GET and HEAD
  decides is the form of the call: the transport gets an instrumented request only when
  the data is truthy, the method is neither GET nor HEAD and an upload callback is
  configured; in every other case it gets the URL and the options, body included.
\<close>

theorem body_attached_whatever_method:
  assumes "redaxios_dispatch env defaults urlOrConfig config method0 data0 = Inr (call, options, cfg)"
  shows "\<exists>data headers method.
           request_data env options data0 = Inr (data, headers)
         \<and> effective_method method0 options = Inr method
         \<and> fo_method (call_init call) = method
         \<and> fo_body (call_init call) = data
         \<and> ((\<exists>r. call = Fetch_request r) \<longrightarrow>
               truthy data \<and> method \<noteq> ''GET'' \<and> method \<noteq> ''HEAD''
               \<and> truthy (get_prop options ''onUploadProgress''))"
  using assms
  by (auto simp: redaxios_dispatch_def Let_def split: if_splits sum.splits prod.splits option.splits)

theorem body_attached_whatever_method_witness:
  "redaxios_dispatch example_platform (JObj []) (JStr ''/foo'') (JObj [(''data'', JStr ''x'')])
     (JStr ''head'') JUndefined
   = Inr (Fetch_url ''/foo''
            \<lparr> fo_method = ''HEAD'', fo_body = JStr ''x'', fo_headers = JObj [],
              fo_credentials = JUndefined, fo_signal = JUndefined \<rparr>,
          JObj [(''data'', JStr ''x'')], JObj [(''data'', JStr ''x'')])
   \<and> (\<exists>data headers.
         request_data example_platform (JObj [(''data'', JStr ''x'')]) JUndefined = Inr (data, headers)
       \<and> effective_method (JStr ''head'') (JObj [(''data'', JStr ''x'')]) = Inr ''HEAD''
       \<and> data = JStr ''x'')"
proof -
  have d: "redaxios_dispatch example_platform (JObj []) (JStr ''/foo'') (JObj [(''data'', JStr ''x'')])
     (JStr ''head'') JUndefined
   = Inr (Fetch_url ''/foo''
            \<lparr> fo_method = ''HEAD'', fo_body = JStr ''x'', fo_headers = JObj [],
              fo_credentials = JUndefined, fo_signal = JUndefined \<rparr>,
          JObj [(''data'', JStr ''x'')], JObj [(''data'', JStr ''x'')])"
    by code_simp
  from body_attached_whatever_method [OF d] d show ?thesis by auto
qed

section \<open>Decoding\<close>

text \<open>
  Claim C4, at the input where the code departs from it. With
  \<^verbatim>\<open>responseType: 'text'\<close> and a body that \<^verbatim>\<open>JSON.parse\<close> reads, the data of the
  response is the text itself and not the parsed object: the parse is attempted only
  when \<^verbatim>\<open>options.responseType !== 'text'\<close>.
\<close>

theorem text_response_type_keeps_json_text:
  "json_parse example_platform hello_json = Some (JObj [(''hello'', JStr ''world'')])
   \<and> redaxios_settle example_platform (JObj [(''responseType'', JStr ''text'')]) (JObj [])
        (Fulfilled (example_response 200 True hello_json))
     = Fulfilled (JObj [(''config'', JObj []), (''status'', JNum 200), (''ok'', JBool True),
         (''statusText'', JStr []), (''url'', JStr ''/foo''), (''headers'', JObj []),
         (''body'', JNull), (''data'', JStr hello_json)])"
  by (simp add: redaxios_settle_def redaxios_then_def copy_response_def example_response_def
      example_platform_def response_data_def js_defs)

section \<open>Responses without content\<close>

text \<open>
  Claim C9, as the code has it. A response with status 204 and no body is returned as it
  is; no new response is made for it.
\<close>

theorem no_content_without_body_returns_argument:
  "streamResponse \<lparr> fr_status = 204, fr_statusText = ''No Content'', fr_headers = [],
       fr_content_length = Fin 0, fr_body = None \<rparr> (JFn ''onDownloadProgress'') = The_argument
   \<and> wrapResponseWithProgress \<lparr> fr_status = 204, fr_statusText = ''No Content'', fr_headers = [],
       fr_content_length = Fin 0, fr_body = None \<rparr> (JFn ''onDownloadProgress'') = The_argument"
  by (simp add: streamResponse_def wrapResponseWithProgress_def)

text \<open>
  Claim C9, amended. For a response with status 204 and a download callback, both
  wrappers return the response itself when it has no body, and a new response with a
  \<^verbatim>\<open>null\<close> body when it has one. Either way the response returned has a \<^verbatim>\<open>null\<close>
  body and the status, status text and headers of the original, and reading it hands no
  event to the callback.
\<close>

theorem no_content_response_has_no_progress:
  assumes "fr_status response = 204" and "truthy onDownloadProgress"
  shows "streamResponse response onDownloadProgress
           = (if fr_body response = None then The_argument
              else New_Response (response\<lparr> fr_body := None \<rparr>))
       \<and> wrapResponseWithProgress response onDownloadProgress
           = streamResponse response onDownloadProgress
       \<and> fr_body (response_of response (streamResponse response onDownloadProgress)) = None
       \<and> fr_status (response_of response (streamResponse response onDownloadProgress)) = fr_status response
       \<and> fr_statusText (response_of response (streamResponse response onDownloadProgress)) = fr_statusText response
       \<and> fr_headers (response_of response (streamResponse response onDownloadProgress)) = fr_headers response
       \<and> body_events (fr_body (response_of response (streamResponse response onDownloadProgress))) clock flush_now = Some []"
  using assms
  by (simp add: streamResponse_def wrapResponseWithProgress_def body_events_def)

theorem no_content_response_has_no_progress_witness:
  "fr_status \<lparr> fr_status = 204, fr_statusText = ''No Content'', fr_headers = [(''x-a'', ''1'')],
       fr_content_length = Fin 3, fr_body = Some \<lparr> st_chunks = [3], st_taps = [] \<rparr> \<rparr> = 204
   \<and> truthy (JFn ''onDownloadProgress'')
   \<and> streamResponse \<lparr> fr_status = 204, fr_statusText = ''No Content'', fr_headers = [(''x-a'', ''1'')],
       fr_content_length = Fin 3, fr_body = Some \<lparr> st_chunks = [3], st_taps = [] \<rparr> \<rparr>
       (JFn ''onDownloadProgress'')
     = New_Response \<lparr> fr_status = 204, fr_statusText = ''No Content'', fr_headers = [(''x-a'', ''1'')],
       fr_content_length = Fin 3, fr_body = None \<rparr>"
  using no_content_response_has_no_progress
    [of "\<lparr> fr_status = 204, fr_statusText = ''No Content'', fr_headers = [(''x-a'', ''1'')],
       fr_content_length = Fin 3, fr_body = Some \<lparr> st_chunks = [3], st_taps = [] \<rparr> \<rparr>"
      "JFn ''onDownloadProgress''"]
  by simp

section \<open>Speedometer: the ring buffer\<close>

lemma mod_neq_between:
  fixes j n N :: nat
  assumes "j < n" and "n < j + N"
  shows "j mod N \<noteq> n mod N"
proof
  assume "j mod N = n mod N"
  then have "N dvd n - j"
    using assms(1) by (metis mod_eq_dvd_iff_nat less_imp_le_nat)
  moreover from assms have "0 < n - j" and "n - j < N" by simp_all
  ultimately show False
    using nat_dvd_not_less by blast
qed

lemma sum_loop_stop: "sum_loop bytes N head head acc = Some acc"
  by (subst sum_loop.simps) simp

lemma sum_loop_step:
  "i \<noteq> head \<Longrightarrow>
   sum_loop bytes N head i acc = sum_loop bytes N head ((i + 1) mod N) (add_slot acc (slot bytes i))"
  by (subst sum_loop.simps) simp

lemma sum_loop_window:
  assumes "0 < N" and "length xs < N"
    and "\<forall>l < length xs. slot bytes ((j + l) mod N) = Some (xs ! l)"
  shows "sum_loop bytes N ((j + length xs) mod N) (j mod N) (Fin acc)
           = Some (Fin (acc + sum_list xs))"
  using assms
proof (induction xs arbitrary: j acc)
  case Nil
  then show ?case by (simp add: sum_loop_stop)
next
  case (Cons x xs)
  have ne: "j mod N \<noteq> (j + length (x # xs)) mod N"
    using Cons.prems(2) by (intro mod_neq_between) simp_all
  from Cons.prems(3) have here: "slot bytes (j mod N) = Some x"
    by (metis add.right_neutral length_greater_0_conv list.distinct(1) nth_Cons_0)
  have next_i: "Suc (j mod N) mod N = Suc j mod N"
    by (rule mod_Suc_eq)
  have rest: "\<forall>l < length xs. slot bytes ((Suc j + l) mod N) = Some (xs ! l)"
  proof (intro allI impI)
    fix l assume "l < length xs"
    then have "Suc l < length (x # xs)" by simp
    with Cons.prems(3) have "slot bytes ((j + Suc l) mod N) = Some ((x # xs) ! Suc l)" by blast
    then show "slot bytes ((Suc j + l) mod N) = Some (xs ! l)" by simp
  qed
  from Cons.prems(2) have len: "length xs < N" by simp
  have "sum_loop bytes N ((j + length (x # xs)) mod N) (j mod N) (Fin acc)
          = sum_loop bytes N ((j + length (x # xs)) mod N) (Suc j mod N) (Fin (acc + x))"
    using ne by (simp add: sum_loop_step here next_i)
  also have "\<dots> = Some (Fin (acc + x + sum_list xs))"
    using Cons.IH [OF Cons.prems(1) len rest, of "acc + x"] by simp
  finally show ?case by (simp add: add.assoc)
qed

lemma retained_start:
  "0 < N \<Longrightarrow> retained (N - Suc 0) h = drop (if length h < N then 0 else length h + 1 - N) h"
  by (cases "length h < N") (simp_all add: retained_def Suc_diff_le)

lemma ring_push:
  assumes N: "2 \<le> N" and inv: "ring_holds N h st"
    and nz: "\<forall>p \<in> set h. snd p \<noteq> 0" and now: "now \<noteq> 0"
  shows "\<exists>st'. speedometer_push N minMs st now chunk
                = Some (ring_window_rate N minMs h now chunk, st')
             \<and> ring_holds N (h @ [(chunk, now)]) st'"
proof -
  define n where "n = length h"
  define h' where "h' = h @ [(chunk, now)]"
  define j0 where "j0 = (if n < N then 0 else n + 1 - N)"
  define j1 where "j1 = (if Suc n < N then 0 else n + 2 - N)"
  define bytes where "bytes = (sp_bytes st)[n mod N := Some chunk]"
  define stamps where "stamps = (sp_timestamps st)[n mod N := Some now]"
  define first where "first = snd (hd h')"
  define tail where "tail = (if Suc n mod N = sp_tail st then Suc (sp_tail st) mod N else sp_tail st)"
  define st' where "st' = \<lparr> sp_bytes = bytes, sp_timestamps = stamps,
                     sp_head = Suc n mod N, sp_tail = tail, firstSampleTS = Some first \<rparr>"
  from N have Npos: "0 < N" by simp
  from inv have lb: "length (sp_bytes st) = N" and lt: "length (sp_timestamps st) = N"
    and hd_st: "sp_head st = n mod N"
    and tl_st: "sp_tail st = (if n < N then 0 else (n + 1) mod N)"
    and fs: "firstSampleTS st = (if h = [] then None else Some (snd (hd h)))"
    and slots: "\<And>j. j < n \<Longrightarrow> n \<le> j + N \<Longrightarrow>
                 sp_bytes st ! (j mod N) = Some (fst (h ! j))
               \<and> sp_timestamps st ! (j mod N) = Some (snd (h ! j))"
    by (simp_all add: ring_holds_def n_def)
  have in_range: "n mod N < N" using Npos by simp
  have store_b: "store (sp_bytes st) (sp_head st) chunk = bytes"
    by (simp add: store_def hd_st lb in_range bytes_def)
  have store_t: "store (sp_timestamps st) (sp_head st) now = stamps"
    by (simp add: store_def hd_st lt in_range stamps_def)
  have tail_j0: "sp_tail st = j0 mod N"
  proof (cases "n < N")
    case True
    then show ?thesis by (simp add: tl_st j0_def)
  next
    case False
    then have "(n + 1) mod N = (n + 1 - N) mod N"
      by (simp add: le_mod_geq)
    with False show ?thesis by (simp add: tl_st j0_def)
  qed
  have j0n: "j0 \<le> n" and win: "n - j0 < N" and j0N: "n < j0 + N"
    using N by (auto simp: j0_def)
  define xs where "xs = map fst (drop j0 h)"
  have lxs: "length xs = n - j0" by (simp add: xs_def n_def)
  have old_slot: "bytes ! (j mod N) = Some (fst (h ! j)) \<and> stamps ! (j mod N) = Some (snd (h ! j))"
    if "j < n" "n \<le> j + N" "n < j + N" for j
  proof -
    from that have "j mod N \<noteq> n mod N" by (intro mod_neq_between)
    then show ?thesis using slots [OF that(1,2)] by (simp add: bytes_def stamps_def)
  qed
  have "\<forall>l < length xs. slot bytes ((j0 + l) mod N) = Some (xs ! l)"
  proof (intro allI impI)
    fix l assume l: "l < length xs"
    with lxs have a: "j0 + l < n" by simp
    from j0N have b: "n < j0 + l + N" by simp
    have "slot bytes ((j0 + l) mod N) = bytes ! ((j0 + l) mod N)"
      using Npos by (simp add: slot_def bytes_def lb)
    also have "\<dots> = Some (fst (h ! (j0 + l)))"
      using old_slot [OF a _ b] b by simp
    also have "fst (h ! (j0 + l)) = xs ! l"
      using l a by (simp add: xs_def n_def)
    finally show "slot bytes ((j0 + l) mod N) = Some (xs ! l)" .
  qed
  with sum_loop_window [OF Npos, of xs bytes j0 0] win lxs
  have "sum_loop bytes N ((j0 + length xs) mod N) (j0 mod N) (Fin 0) = Some (Fin (sum_list xs))"
    by simp
  moreover have "j0 + length xs = n" using j0n lxs by simp
  ultimately have loop: "sum_loop bytes N (sp_head st) (sp_tail st) (Fin 0) = Some (Fin (sum_list xs))"
    by (simp add: hd_st tail_j0)
  have total: "sum_list xs = sum_list (map fst (retained (N - 1) h))"
    using Npos by (simp add: xs_def retained_start j0_def n_def)
  have first_eq: "(case firstSampleTS st of None \<Rightarrow> now | Some t \<Rightarrow> if t = 0 then now else t) = first"
  proof (cases h)
    case Nil
    then show ?thesis by (simp add: fs first_def h'_def)
  next
    case (Cons p ps)
    with nz have "snd p \<noteq> 0" by simp
    with Cons show ?thesis by (simp add: fs first_def h'_def)
  qed
  have tail_new: "tail = (if Suc n < N then 0 else (Suc n + 1) mod N)"
  proof -
    consider "Suc n < N" | "Suc n = N" | "N \<le> n" by linarith
    then show ?thesis
    proof cases
      case 1
      then show ?thesis by (simp add: tail_def tl_st)
    next
      case 2
      with N have "Suc (Suc n) mod N = 1" by (simp add: mod_Suc)
      with 2 N show ?thesis by (simp add: tail_def tl_st)
    next
      case 3
      then have "Suc (Suc n mod N) mod N = Suc (Suc n) mod N" by (simp add: mod_Suc_eq)
      with 3 show ?thesis by (simp add: tail_def tl_st)
    qed
  qed
  have inv': "ring_holds N h' st'"
    unfolding ring_holds_def
  proof (intro conjI allI impI)
    show "length (sp_bytes st') = N" by (simp add: st'_def bytes_def lb)
    show "length (sp_timestamps st') = N" by (simp add: st'_def stamps_def lt)
    show "sp_head st' = length h' mod N" by (simp add: st'_def h'_def n_def)
    show "sp_tail st' = (if length h' < N then 0 else (length h' + 1) mod N)"
      by (simp add: st'_def tail_new h'_def n_def)
    show "firstSampleTS st' = (if h' = [] then None else Some (snd (hd h')))"
      by (simp add: st'_def first_def h'_def)
  next
    fix j assume j: "j < length h'" and w: "length h' \<le> j + N"
    show "sp_bytes st' ! (j mod N) = Some (fst (h' ! j))"
    proof (cases "j = n")
      case True
      then show ?thesis using Npos by (simp add: st'_def bytes_def lb h'_def n_def)
    next
      case False
      with j have a: "j < n" by (simp add: h'_def n_def)
      from w have b: "n < j + N" by (simp add: h'_def n_def)
      from old_slot [OF a _ b] b a show ?thesis
        by (simp add: st'_def h'_def nth_append n_def)
    qed
    show "sp_timestamps st' ! (j mod N) = Some (snd (h' ! j))"
    proof (cases "j = n")
      case True
      then show ?thesis using Npos by (simp add: st'_def stamps_def lt h'_def n_def)
    next
      case False
      with j have a: "j < n" by (simp add: h'_def n_def)
      from w have b: "n < j + N" by (simp add: h'_def n_def)
      from old_slot [OF a _ b] b a show ?thesis
        by (simp add: st'_def h'_def nth_append n_def)
    qed
  qed
  have j1_lt: "j1 < length h'" and j1_w: "length h' \<le> j1 + N"
    using N by (auto simp: j1_def h'_def n_def)
  have tail_j1: "tail = j1 mod N"
  proof (cases "Suc n < N")
    case True
    then show ?thesis by (simp add: tail_new j1_def)
  next
    case False
    then have "(Suc n + 1) mod N = (Suc n + 1 - N) mod N" by (simp add: le_mod_geq)
    with False show ?thesis by (simp add: tail_new j1_def)
  qed
  from inv' j1_lt j1_w have "sp_timestamps st' ! (j1 mod N) = Some (snd (h' ! j1))"
    by (simp add: ring_holds_def)
  then have stamp: "slot stamps tail = Some (snd (h' ! j1))"
    using Npos by (simp add: slot_def tail_j1 st'_def stamps_def lt)
  have len': "length h' = Suc n" by (simp add: h'_def n_def)
  have "retained (N - Suc 0) h' = drop j1 h'"
    using Npos by (simp add: retained_start len' j1_def)
  then have oldest: "hd (retained (N - Suc 0) h') = h' ! j1"
    using j1_lt by (simp add: hd_drop_conv_nth)
  have "h' ! j1 \<in> set h'" using j1_lt nth_mem by blast
  with nz now have nonzero: "snd (h' ! j1) \<noteq> 0" by (auto simp: h'_def)
  have head_eq: "(sp_head st + 1) mod N = Suc n mod N"
    by (simp add: hd_st mod_Suc_eq)
  have tail_eq: "(if Suc n mod N = sp_tail st then (sp_tail st + 1) mod N else sp_tail st) = tail"
    by (simp add: tail_def)
  have "speedometer_push N minMs st now chunk
          = Some (if now - first < minMs then None
                  else (case slot stamps tail of
                          None \<Rightarrow> None
                        | Some t \<Rightarrow>
                            if t = 0 \<or> now - t = 0 then None
                            else Some (rate_of (Fin (sum_list xs)) (now - t))), st')"
    unfolding speedometer_push_def Let_def store_b store_t first_eq loop head_eq tail_eq
    by (simp add: st'_def)
  also have "(if now - first < minMs then None
                  else (case slot stamps tail of
                          None \<Rightarrow> None
                        | Some t \<Rightarrow>
                            if t = 0 \<or> now - t = 0 then None
                            else Some (rate_of (Fin (sum_list xs)) (now - t))))
           = (if now - first < minMs then None
              else if now - snd (h' ! j1) = 0 then None
              else Some (rate_of (Fin (sum_list xs)) (now - snd (h' ! j1))))"
    using nonzero by (simp add: stamp)
  also have "(if now - first < minMs then None
              else if now - snd (h' ! j1) = 0 then None
              else Some (rate_of (Fin (sum_list xs)) (now - snd (h' ! j1))))
             = ring_window_rate N minMs h now chunk"
    by (simp add: ring_window_rate_def Let_def total oldest [unfolded h'_def] first_def h'_def)
  finally show ?thesis using inv' by (auto simp: h'_def)
qed

lemma ring_start: "0 < N \<Longrightarrow> ring_holds N [] (speedometer N)"
  by (simp add: ring_holds_def speedometer_def new_Array_def)

lemma ring_run:
  assumes "2 \<le> N" and "ring_holds N h st" and "\<forall>p \<in> set (h @ hs). snd p \<noteq> 0"
  shows "\<exists>rs st'. speedometer_run N minMs st hs = Some (rs, st')
                \<and> length rs = length hs \<and> ring_holds N (h @ hs) st'"
  using assms(2,3)
proof (induction hs arbitrary: h st)
  case Nil
  then show ?case by simp
next
  case (Cons p hs)
  obtain chunk now where p: "p = (chunk, now)" by (cases p)
  from Cons.prems(2) p have nz: "\<forall>q \<in> set h. snd q \<noteq> 0" and now: "now \<noteq> 0" by auto
  from ring_push [OF assms(1) Cons.prems(1) nz now, of minMs chunk]
  obtain st1 where
    push: "speedometer_push N minMs st now chunk = Some (ring_window_rate N minMs h now chunk, st1)"
    and inv1: "ring_holds N (h @ [(chunk, now)]) st1"
    by blast
  from Cons.prems(2) p have "\<forall>q \<in> set ((h @ [(chunk, now)]) @ hs). snd q \<noteq> 0" by auto
  from Cons.IH [OF inv1 this]
  obtain rs st' where "speedometer_run N minMs st1 hs = Some (rs, st')"
    and "length rs = length hs" and "ring_holds N ((h @ [(chunk, now)]) @ hs) st'"
    by blast
  with push p show ?case by simp
qed

lemma speedometer_run_append:
  "speedometer_run N minMs st (xs @ ys) =
     (case speedometer_run N minMs st xs of
        None \<Rightarrow> None
      | Some (rs, st') \<Rightarrow>
          (case speedometer_run N minMs st' ys of
             None \<Rightarrow> None
           | Some (rs', st'') \<Rightarrow> Some (rs @ rs', st'')))"
  by (induction xs arbitrary: st) (auto split: option.splits)

lemma ring_last_rate:
  assumes "2 \<le> N" and "\<forall>p \<in> set (earlier @ [(chunk, now)]). snd p \<noteq> 0"
  shows "\<exists>rs st'. speedometer_run N minMs (speedometer N) (earlier @ [(chunk, now)])
                   = Some (rs @ [ring_window_rate N minMs earlier now chunk], st')
                \<and> length rs = length earlier"
proof -
  from assms(2) have nz: "\<forall>p \<in> set ([] @ earlier). snd p \<noteq> 0" and now: "now \<noteq> 0" by auto
  from assms(1) have "0 < N" by simp
  from ring_run [OF assms(1) ring_start [OF this] nz, of minMs]
  obtain rs st1 where run: "speedometer_run N minMs (speedometer N) earlier = Some (rs, st1)"
    and len: "length rs = length earlier" and inv: "ring_holds N earlier st1"
    by auto
  from nz have "\<forall>p \<in> set earlier. snd p \<noteq> 0" by simp
  from ring_push [OF assms(1) inv this now, of minMs chunk]
  obtain st' where "speedometer_push N minMs st1 now chunk
                      = Some (ring_window_rate N minMs earlier now chunk, st')"
    by blast
  with run len show ?thesis by (simp add: speedometer_run_append)
qed

section \<open>Speedometer: the sample list\<close>

lemma drop_old_retained: "drop_old samples buf = retained samples buf"
proof (induction samples buf rule: drop_old.induct)
  case (1 samples buf)
  show ?case
  proof (cases "samples < length buf")
    case True
    then have "drop (length buf - samples) buf = drop (length (tl buf) - samples) (tl buf)"
      by (cases buf) (simp_all add: Suc_diff_le)
    with True 1 show ?thesis
      by (subst drop_old.simps) (simp add: retained_def)
  next
    case False
    then show ?thesis by (subst drop_old.simps) (simp add: retained_def)
  qed
qed

lemma retained_snoc: "retained n (retained n h @ [x]) = retained n (h @ [x])"
proof (cases "length h \<le> n")
  case True
  then show ?thesis by (simp add: retained_def)
next
  case False
  then have "Suc (length h) - n = Suc (length h - n)" and "Suc n - n = 1"
    by simp_all
  with False show ?thesis by (cases "n = 0") (simp_all add: retained_def)
qed

lemma foldl_bytes: "foldl (\<lambda>s x. s + fst x) (a :: int) buf = a + sum_list (map fst buf)"
  by (induction buf arbitrary: a) simp_all

lemma retained_snoc_nonempty: "0 < n \<Longrightarrow> retained n (h @ [x]) \<noteq> [] \<and> last (retained n (h @ [x])) = x"
  by (auto simp: retained_def)

lemma list_push:
  assumes "0 < samples"
  shows "createSpeedometer_push samples minTime (retained samples h) now bytes
           = (list_window_rate samples minTime h now bytes, retained samples (h @ [(bytes, now)]))"
proof -
  define window where "window = retained samples (h @ [(bytes, now)])"
  from assms have ne: "window \<noteq> []" and la: "last window = (bytes, now)"
    using retained_snoc_nonempty [of samples h "(bytes, now)"] by (simp_all add: window_def)
  then obtain first rest where w: "window = first # rest" by (cases window) auto
  have d: "drop_old samples (retained samples h @ [(bytes, now)]) = window"
    by (simp add: drop_old_retained retained_snoc window_def)
  have "createSpeedometer_push samples minTime (retained samples h) now bytes
          = (if now - snd first < minTime then None
             else if now - snd first > 0
                  then Some (Fin (math_round (of_int (sum_list (map fst window) * 1000)
                                               / of_int (now - snd first))))
                  else None, window)"
    unfolding createSpeedometer_push_def Let_def d
    using la by (simp add: w foldl_bytes del: last.simps)
  also have "(if now - snd first < minTime then None
             else if now - snd first > 0
                  then Some (Fin (math_round (of_int (sum_list (map fst window) * 1000)
                                               / of_int (now - snd first))))
                  else None) = list_window_rate samples minTime h now bytes"
    by (simp add: list_window_rate_def Let_def window_def [symmetric] w)
  finally show ?thesis by (simp add: window_def)
qed

lemma list_run:
  assumes "0 < samples"
  shows "\<exists>rs. createSpeedometer_run samples minTime (retained samples h) hs
                = (rs, retained samples (h @ hs)) \<and> length rs = length hs"
proof (induction hs arbitrary: h)
  case Nil
  then show ?case by simp
next
  case (Cons p hs)
  obtain bytes now where p: "p = (bytes, now)" by (cases p)
  from Cons.IH [of "h @ [(bytes, now)]"]
  obtain rs where "createSpeedometer_run samples minTime (retained samples (h @ [(bytes, now)])) hs
                = (rs, retained samples ((h @ [(bytes, now)]) @ hs))" and "length rs = length hs"
    by blast
  then show ?case by (simp add: p list_push [OF assms])
qed

lemma createSpeedometer_run_append:
  "createSpeedometer_run samples minTime buf (xs @ ys) =
     (let (rs, buf') = createSpeedometer_run samples minTime buf xs;
          (rs', buf'') = createSpeedometer_run samples minTime buf' ys
      in (rs @ rs', buf''))"
  by (induction xs arbitrary: buf) (auto split: prod.splits)

lemma list_last_rate:
  assumes "0 < samples"
  shows "\<exists>rs. fst (createSpeedometer_run samples minTime [] (earlier @ [(bytes, now)]))
                = rs @ [list_window_rate samples minTime earlier now bytes]
              \<and> length rs = length earlier"
proof -
  have e: "retained samples ([] :: (int \<times> int) list) = []" by (simp add: retained_def)
  from list_run [OF assms, of minTime "[]" earlier] e
  obtain rs where "createSpeedometer_run samples minTime [] earlier = (rs, retained samples earlier)"
    and "length rs = length earlier"
    by auto
  then show ?thesis
    by (simp add: createSpeedometer_run_append list_push [OF assms])
qed

lemma sorted_hd_le:
  fixes h :: "(int \<times> int) list"
  assumes "sorted (map snd h)" and "x \<in> set h"
  shows "snd (hd h) \<le> snd x"
  using assms by (cases h) auto

lemma list_window_early:
  assumes "sorted (map snd (earlier @ [(bytes, now)]))"
    and "now - snd (hd (earlier @ [(bytes, now)])) < minTime" and "0 < samples"
  shows "list_window_rate samples minTime earlier now bytes = None"
proof -
  define h where "h = earlier @ [(bytes, now)]"
  have "retained samples h \<noteq> []"
    using assms(3) retained_snoc_nonempty [of samples earlier "(bytes, now)"] by (simp add: h_def)
  then have "hd (retained samples h) \<in> set (retained samples h)" by simp
  then have "hd (retained samples h) \<in> set h"
    unfolding retained_def by (rule in_set_dropD)
  from sorted_hd_le [OF assms(1) [folded h_def] this] assms(2)
  have "now - snd (hd (retained samples h)) < minTime" by (simp add: h_def)
  then show ?thesis by (simp add: list_window_rate_def Let_def h_def)
qed

section \<open>Speedometer: the rate returned by a push\<close>

lemma ring_before_eviction:
  assumes "length earlier + 1 < N"
  shows "ring_window_rate N minMs earlier now chunk = first_window_rate minMs earlier now chunk"
proof -
  from assms have "retained (N - 1) earlier = earlier"
    and "retained (N - 1) (earlier @ [(chunk, now)]) = earlier @ [(chunk, now)]"
    by (simp_all add: retained_def)
  then show ?thesis
    by (simp add: ring_window_rate_def first_window_rate_def Let_def)
qed

text \<open>
  Claim C8, as the code has it. The sample list of \<^verbatim>\<open>stream.js\<close> returns
  \<^verbatim>\<open>undefined\<close> at the eleventh of eleven pushes 30 ms apart: 300 ms have passed
  since the first sample, which is not less than \<^verbatim>\<open>minTime\<close>, and the window of ten
  samples spans 270 ms, which is not zero, yet no rate is returned, because the 300 ms
  are asked of the window. And the ring buffer of \<^verbatim>\<open>progress.js\<close>, pushed 100 bytes
  and then 300 bytes two seconds later, returns 50: the bytes it sums are those of the
  first sample only, not those of the two samples it retains. Once the ring is full, the
  tenth push evicts the first sample, of 1000 bytes, and still counts it: it returns
  225, the 1800 bytes of the first nine samples over the 8 seconds since the second.
\<close>

theorem speedometer_window_counterexample:
  "last (fst (createSpeedometer_run 10 300 []
       [(1, 1000), (1, 1030), (1, 1060), (1, 1090), (1, 1120), (1, 1150),
        (1, 1180), (1, 1210), (1, 1240), (1, 1270), (1, 1300)])) = None
   \<and> map_option fst (speedometer_run 10 1000 (speedometer 10) [(100, 5000), (300, 7000)])
       = Some [None, Some (Fin 50)]
   \<and> map_option (last \<circ> fst) (speedometer_run 10 1000 (speedometer 10)
       [(1000, 1000), (100, 2000), (100, 3000), (100, 4000), (100, 5000), (100, 6000),
        (100, 7000), (100, 8000), (100, 9000), (100, 10000)])
       = Some (Some (Fin 225))"
  by code_simp

text \<open>
  Claim C8, amended. Both speedometers are taken from their initial state through a
  sequence of pushes, and the rate returned by the last push is given.

  The ring buffer of \<^verbatim>\<open>speedometer(samplesCount, min)\<close>, on a clock that never
  reads 0 and as long as fewer than \<open>samplesCount\<close> samples have been pushed, the one
  being pushed included, so that none has been evicted, returns \<open>first_window_rate\<close>: \<^verbatim>\<open>undefined\<close> while fewer
  than \<^verbatim>\<open>min\<close> milliseconds have passed since the first sample, and when no time
  has passed since it; otherwise \<^verbatim>\<open>round(totalBytes * 1000 / elapsedMs)\<close>, where the
  bytes are those of the samples pushed before this one and the time runs from the
  first sample.

  The sample list of \<^verbatim>\<open>createSpeedometer(samples, minTime)\<close> returns
  \<open>list_window_rate\<close>: \<^verbatim>\<open>undefined\<close> while the retained window spans less than
  \<^verbatim>\<open>minTime\<close> milliseconds or no time at all; otherwise the rounded quotient of the
  bytes of the retained samples, the one just pushed included, by the span of the window.
  On a clock that does not run backwards it is \<^verbatim>\<open>undefined\<close> in particular while
  fewer than \<^verbatim>\<open>minTime\<close> milliseconds have passed since the first sample.
\<close>

theorem speedometer_rates:
  "(length earlier + 1 < samplesCount \<and> (\<forall>p \<in> set (earlier @ [(chunkLength, now)]). snd p \<noteq> 0) \<longrightarrow>
      (\<exists>rs st. speedometer_run samplesCount minMs (speedometer samplesCount)
                  (earlier @ [(chunkLength, now)])
                = Some (rs @ [first_window_rate minMs earlier now chunkLength], st)
              \<and> length rs = length earlier))
   \<and> (0 < samples \<longrightarrow>
      (\<exists>rs. fst (createSpeedometer_run samples minTime [] (earlier @ [(chunkLength, now)]))
                = rs @ [list_window_rate samples minTime earlier now chunkLength]
            \<and> length rs = length earlier))
   \<and> (0 < samples \<and> sorted (map snd (earlier @ [(chunkLength, now)]))
        \<and> now - snd (hd (earlier @ [(chunkLength, now)])) < minTime \<longrightarrow>
      list_window_rate samples minTime earlier now chunkLength = None)"
proof (intro conjI impI)
  assume h: "length earlier + 1 < samplesCount
             \<and> (\<forall>p \<in> set (earlier @ [(chunkLength, now)]). snd p \<noteq> 0)"
  then have "2 \<le> samplesCount" by simp
  from ring_last_rate [OF this, of earlier chunkLength now minMs] h
    ring_before_eviction [of earlier samplesCount minMs now chunkLength]
  show "\<exists>rs st. speedometer_run samplesCount minMs (speedometer samplesCount)
                  (earlier @ [(chunkLength, now)])
                = Some (rs @ [first_window_rate minMs earlier now chunkLength], st)
              \<and> length rs = length earlier"
    by simp
next
  assume "0 < samples"
  then show "\<exists>rs. fst (createSpeedometer_run samples minTime [] (earlier @ [(chunkLength, now)]))
                = rs @ [list_window_rate samples minTime earlier now chunkLength]
            \<and> length rs = length earlier"
    by (rule list_last_rate)
next
  assume "0 < samples \<and> sorted (map snd (earlier @ [(chunkLength, now)]))
        \<and> now - snd (hd (earlier @ [(chunkLength, now)])) < minTime"
  then show "list_window_rate samples minTime earlier now chunkLength = None"
    using list_window_early [of earlier chunkLength now minTime samples] by blast
qed

theorem speedometer_rates_witness:
  "length [(100::int, 5000::int)] + 1 < (10::nat)
   \<and> snd (100::int, 5000::int) \<noteq> 0 \<and> snd (300::int, 7000::int) \<noteq> 0
   \<and> sorted (map snd [(100::int, 5000::int), (300, 7000)])
   \<and> map_option (last \<circ> fst) (speedometer_run 10 1000 (speedometer 10) [(100, 5000), (300, 7000)])
       = Some (Some (Fin 50))
   \<and> last (fst (createSpeedometer_run 10 300 [] [(100, 5000), (300, 7000)])) = Some (Fin 200)
   \<and> list_window_rate 10 3000 [(100, 5000)] 7000 300 = None"
proof -
  have r: "first_window_rate 1000 [(100, 5000)] 7000 300 = Some (Fin 50)" by code_simp
  have l: "list_window_rate 10 300 [(100, 5000)] 7000 300 = Some (Fin 200)" by code_simp
  have h: "length [(100::int, 5000::int)] + 1 < (10::nat)
           \<and> (\<forall>p \<in> set ([(100::int, 5000::int)] @ [(300, 7000)]). snd p \<noteq> 0)"
    by simp
  have s: "(0::nat) < 10 \<and> sorted (map snd ([(100::int, 5000::int)] @ [(300, 7000)]))
        \<and> 7000 - snd (hd ([(100::int, 5000::int)] @ [(300, 7000)])) < 3000"
    by simp
  note inst = speedometer_rates [of "[(100, 5000)]" 10 300 7000 1000 10 300]
  from inst h obtain rs st where
    "speedometer_run 10 1000 (speedometer 10) ([(100, 5000)] @ [(300, 7000)])
       = Some (rs @ [first_window_rate 1000 [(100, 5000)] 7000 300], st)"
    by blast
  then have a: "map_option (last \<circ> fst)
       (speedometer_run 10 1000 (speedometer 10) [(100, 5000), (300, 7000)]) = Some (Some (Fin 50))"
    by (simp add: r)
  from inst obtain rs' where
    "fst (createSpeedometer_run 10 300 [] ([(100, 5000)] @ [(300, 7000)]))
       = rs' @ [list_window_rate 10 300 [(100, 5000)] 7000 300]"
    by auto
  then have b: "last (fst (createSpeedometer_run 10 300 [] [(100, 5000), (300, 7000)])) = Some (Fin 200)"
    by (simp add: l)
  from speedometer_rates [of "[(100, 5000)]" 10 300 7000 1000 10 3000] s
  have c: "list_window_rate 10 3000 [(100, 5000)] 7000 300 = None"
    by blast
  from a b c show ?thesis by simp
qed

section \<open>Stream Instrumentation: the progress ratio\<close>

text \<open>
  Claim C7, at the input where the code departs from it. With a total of 10 bytes and
  chunks of 10 and 5 bytes, \<^verbatim>\<open>withProgress\<close> emits before the flush an event whose
  ratio is 1, not below 1, and at the flush an event that reports 15 bytes and a ratio
  of 3/2, outside the range from 0 to 1: the transform computes a ratio clamped under 1
  in \<^verbatim>\<open>percent\<close> and does not use it. A stream without chunks has no event at all,
  so none at the flush. The transform of \<^verbatim>\<open>wrapStream\<close> reports the same ratios
  and has no flush.
\<close>

theorem progress_ratio_unclamped:
  "withProgress_events 10 False [(10, 5000), (5, 5100)] 5200
     = Some ([\<lparr> ev_loaded = 10, ev_total = Some 10, ev_progress = Some 1, ev_bytes = 10,
                ev_rate = None, ev_estimated = None, ev_upload = False, ev_download = True,
                ev_lengthComputable = True \<rparr>],
             [\<lparr> ev_loaded = 15, ev_total = Some 10, ev_progress = Some (3 / 2), ev_bytes = 5,
                ev_rate = None, ev_estimated = None, ev_upload = False, ev_download = True,
                ev_lengthComputable = True \<rparr>])
   \<and> withProgress_events 10 False [] 5200 = Some ([], [])
   \<and> map ev_progress (wrapStream_events (Some 10) False [(10, 5000), (5, 5100)])
     = [Some 1, Some (3 / 2)]"
  by code_simp

end
